theory Spec2Isabelle
  imports Main "HOL-Library.Sublist" "HOL-Library.AList" "HOL-Library.Char_ord"
    "HOL-Library.List_Lexorder" "HOL-Library.Multiset"
begin

section \<open>Strings and regular-expression scanning\<close>

text \<open>
  The translation sync tool (\<^verbatim>\<open>translations/lang_sync.py\<close>) works on the raw text of the
  language files with Python's \<^verbatim>\<open>re\<close> module.  A Python string is modelled as a
  \<^typ>\<open>string\<close>, one \<^typ>\<open>char\<close> per code point (code points below 256).  A compiled
  pattern is modelled by its anchored matcher: applied to the text that remains at a
  position it returns the groups of the match that starts there and the length of the
  match (\<^verbatim>\<open>m.end() - m.start()\<close>), or \<^term>\<open>None\<close>.  None of the patterns of the tool
  matches the empty string.

  The drivers below scan from left to right as \<^verbatim>\<open>finditer\<close>, \<^verbatim>\<open>sub\<close> and
  \<^verbatim>\<open>search\<close> do: the leftmost match wins, and after a match the scan resumes at its
  end.  The numeric argument counts the characters of the current match that are still
  to be passed over.
\<close>

type_synonym 'g matcher = "string \<Rightarrow> ('g \<times> nat) option"

fun re_finditer :: "'g matcher \<Rightarrow> nat \<Rightarrow> string \<Rightarrow> 'g list" where
  "re_finditer m n [] = []"
| "re_finditer m (Suc n) (c # cs) = re_finditer m n cs"
| "re_finditer m 0 (c # cs) =
     (case m (c # cs) of
        None \<Rightarrow> re_finditer m 0 cs
      | Some (g, l) \<Rightarrow> g # re_finditer m (l - 1) cs)"

fun re_sub :: "'g matcher \<Rightarrow> ('g \<Rightarrow> string) \<Rightarrow> nat \<Rightarrow> string \<Rightarrow> string" where
  "re_sub m f n [] = []"
| "re_sub m f (Suc n) (c # cs) = re_sub m f n cs"
| "re_sub m f 0 (c # cs) =
     (case m (c # cs) of
        None \<Rightarrow> c # re_sub m f 0 cs
      | Some (g, l) \<Rightarrow> f g @ re_sub m f (l - 1) cs)"

text \<open>\<^verbatim>\<open>pattern.search(s)\<close>: the groups and the end offset of the leftmost match.\<close>

fun re_search :: "'g matcher \<Rightarrow> string \<Rightarrow> ('g \<times> nat) option" where
  "re_search m [] = None"
| "re_search m (c # cs) =
     (case m (c # cs) of
        Some (g, l) \<Rightarrow> Some (g, l)
      | None \<Rightarrow> map_option (\<lambda>(g, e). (g, Suc e)) (re_search m cs))"

text \<open>\<^verbatim>\<open>s.find(sub)\<close>, with \<^term>\<open>None\<close> for Python's \<^verbatim>\<open>-1\<close>.\<close>

fun str_find :: "string \<Rightarrow> string \<Rightarrow> nat option" where
  "str_find sub [] = (if sub = [] then Some 0 else None)"
| "str_find sub (c # cs) =
     (if prefix sub (c # cs) then Some 0 else map_option Suc (str_find sub cs))"

fun strip_prefix :: "string \<Rightarrow> string \<Rightarrow> string option" where
  "strip_prefix [] s = Some s"
| "strip_prefix (p # ps) [] = None"
| "strip_prefix (p # ps) (c # cs) = (if p = c then strip_prefix ps cs else None)"

text \<open>The class \<^verbatim>\<open>[^"]\<close>, and \<^verbatim>\<open>\s\<close> of a Unicode pattern below code point 256.\<close>

definition not_quote :: "char \<Rightarrow> bool" where
  "not_quote c = (c \<noteq> CHR 0x22)"

definition is_space :: "char \<Rightarrow> bool" where
  "is_space c = (c \<in> {CHR 0x09, CHR 0x0A, CHR 0x0B, CHR 0x0C, CHR 0x0D,
                       CHR 0x1C, CHR 0x1D, CHR 0x1E, CHR 0x1F, CHR 0x20, CHR 0x85, CHR 0xA0})"

section \<open>Configuration\<close>

datatype xml_format = Elements | Texts

definition sourceLanguage :: string where
  "sourceLanguage = ''en''"

definition untranslatedPrefix :: string where
  "untranslatedPrefix = ''[EN] ''"

section \<open>The entry patterns\<close>

text \<open>
  \<^verbatim>\<open>([^>]*)\s*/>\<close> on the text after the closing quote of the value.  The characters
  that \<^verbatim>\<open>[^>]*\<close>, \<^verbatim>\<open>\s*\<close> and \<^verbatim>\<open>/\<close> consume are all different from \<^verbatim>\<open>>\<close>, so the
  match ends at the first \<^verbatim>\<open>>\<close> and exists exactly when a \<^verbatim>\<open>/\<close> stands right before it;
  the greedy group gives back that one character only.  The result is the group and the
  number of characters consumed.
\<close>

definition attrs_tail :: "string \<Rightarrow> (string \<times> nat) option" where
  "attrs_tail t =
     (let pre = takeWhile (\<lambda>c. c \<noteq> CHR ''>'') t in
      if length pre < length t \<and> pre \<noteq> [] \<and> last pre = CHR ''/''
      then Some (butlast pre, Suc (length pre)) else None)"

text \<open>\<^verbatim>\<open>\s*/>\<close> of the texts pattern.\<close>

definition texts_tail :: "string \<Rightarrow> nat option" where
  "texts_tail t =
     (let ws = takeWhile is_space t in
      if prefix ''/>'' (drop (length ws) t) then Some (length ws + 2) else None)"

text \<open>\<^verbatim>\<open>([^"]*)"([^>]*)\s*/>\<close>: the value, the attribute text, the length consumed.\<close>

definition elements_rest :: "string \<Rightarrow> (string \<times> string \<times> nat) option" where
  "elements_rest s =
     (let v = takeWhile not_quote s in
      case drop (length v) s of
        [] \<Rightarrow> None
      | q # t \<Rightarrow> (case attrs_tail t of
                    None \<Rightarrow> None
                  | Some (a, n) \<Rightarrow> Some (v, a, length v + 1 + n)))"

text \<open>\<^verbatim>\<open>([^"]*)"\s*/>\<close>: the value and the length consumed.\<close>

definition texts_rest :: "string \<Rightarrow> (string \<times> nat) option" where
  "texts_rest s =
     (let v = takeWhile not_quote s in
      case drop (length v) s of
        [] \<Rightarrow> None
      | q # t \<Rightarrow> (case texts_tail t of
                    None \<Rightarrow> None
                  | Some n \<Rightarrow> Some (v, length v + 1 + n)))"

text \<open>
  The pattern of \<^verbatim>\<open>parse_translation_file\<close> for the elements format,
  \<^verbatim>\<open><e k="([^"]+)" v="([^"]*)"([^>]*)\s*/>\<close>: groups key, value, attribute text.
\<close>

definition entry_pattern_elements :: "(string \<times> string \<times> string) matcher" where
  "entry_pattern_elements s =
     (case strip_prefix ''<e k=\"'' s of
        None \<Rightarrow> None
      | Some s1 \<Rightarrow>
          (let k = takeWhile not_quote s1 in
           if k = [] then None
           else (case strip_prefix ''\" v=\"'' (drop (length k) s1) of
                   None \<Rightarrow> None
                 | Some s2 \<Rightarrow>
                     (case elements_rest s2 of
                        None \<Rightarrow> None
                      | Some (v, a, n) \<Rightarrow> Some ((k, v, a), 6 + length k + 5 + n)))))"

text \<open>The texts format: \<^verbatim>\<open><text name="([^"]+)" text="([^"]*)"\s*/>\<close>.\<close>

definition entry_pattern_texts :: "(string \<times> string) matcher" where
  "entry_pattern_texts s =
     (case strip_prefix ''<text name=\"'' s of
        None \<Rightarrow> None
      | Some s1 \<Rightarrow>
          (let k = takeWhile not_quote s1 in
           if k = [] then None
           else (case strip_prefix ''\" text=\"'' (drop (length k) s1) of
                   None \<Rightarrow> None
                 | Some s2 \<Rightarrow>
                     (case texts_rest s2 of
                        None \<Rightarrow> None
                      | Some (v, n) \<Rightarrow> Some ((k, v), 12 + length k + 8 + n)))))"

text \<open>
  The patterns built around one escaped key (\<^verbatim>\<open>re.escape\<close> makes the key match itself):
  \<^verbatim>\<open><e k="KEY" v="([^"]*)"([^>]*)\s*/>\<close> and \<^verbatim>\<open><text name="KEY" text="[^"]*"\s*/>\<close>.
\<close>

definition key_pattern_elements :: "string \<Rightarrow> (string \<times> string) matcher" where
  "key_pattern_elements key s =
     (case strip_prefix (''<e k=\"'' @ key @ ''\" v=\"'') s of
        None \<Rightarrow> None
      | Some s2 \<Rightarrow>
          (case elements_rest s2 of
             None \<Rightarrow> None
           | Some (v, a, n) \<Rightarrow> Some ((v, a), 6 + length key + 5 + n)))"

definition key_pattern_texts :: "string \<Rightarrow> string matcher" where
  "key_pattern_texts key s =
     (case strip_prefix (''<text name=\"'' @ key @ ''\" text=\"'') s of
        None \<Rightarrow> None
      | Some s2 \<Rightarrow>
          (case texts_rest s2 of
             None \<Rightarrow> None
           | Some (v, n) \<Rightarrow> Some (v, 12 + length key + 8 + n)))"

text \<open>\<^verbatim>\<open>eh="([^"]*)"\<close>, and \<^verbatim>\<open>\s*eh="[^"]*"\<close> of the replacers.\<close>

definition eh_pattern :: "string matcher" where
  "eh_pattern s =
     (case strip_prefix ''eh=\"'' s of
        None \<Rightarrow> None
      | Some s1 \<Rightarrow>
          (let h = takeWhile not_quote s1 in
           if length h < length s1 then Some (h, 4 + length h + 1) else None))"

definition ws_eh_pattern :: "string matcher" where
  "ws_eh_pattern s =
     (let ws = takeWhile is_space s in
      case eh_pattern (drop (length ws) s) of
        None \<Rightarrow> None
      | Some (h, n) \<Rightarrow> Some (h, length ws + n))"

section \<open>Parsing a translation file\<close>

text \<open>
  An entry of the \<^verbatim>\<open>entries\<close> dictionary, \<^verbatim>\<open>{'value': ..., 'hash': ...}\<close>; the hash is
  \<^term>\<open>None\<close> when the entry has no \<^verbatim>\<open>eh\<close> attribute.  A Python dictionary keeps its
  keys in the order of their first insertion; assigning to a key that is present
  replaces its value in place.  It is modelled as an association list with
  \<^const>\<open>AList.update\<close> and \<^const>\<open>map_of\<close>.
\<close>

record entry =
  e_value :: string
  e_hash :: "string option"

record parsed =
  entries :: "(string \<times> entry) list"
  ordered_keys :: "string list"
  duplicates :: "string list"
  raw_content :: string

text \<open>
  The occurrences \<^verbatim>\<open>pattern.finditer(content)\<close> yields, as key, value and attribute
  text.  Every format other than \<^verbatim>\<open>'elements'\<close> (also \<^verbatim>\<open>None\<close>) takes the texts pattern,
  whose matches have two groups only, so the attribute text is empty.
\<close>

definition entry_matches :: "xml_format option \<Rightarrow> string \<Rightarrow> (string \<times> string \<times> string) list" where
  "entry_matches fmt content =
     (if fmt = Some Elements then re_finditer entry_pattern_elements 0 content
      else map (\<lambda>(k, v). (k, v, [])) (re_finditer entry_pattern_texts 0 content))"

definition entry_hash_of :: "string \<Rightarrow> string option" where
  "entry_hash_of attrs = map_option fst (re_search eh_pattern attrs)"

text \<open>The body of the loop over the matches.\<close>

definition parse_step :: "parsed \<Rightarrow> string \<times> string \<times> string \<Rightarrow> parsed" where
  "parse_step p m =
     (case m of (key, val, attrs) \<Rightarrow>
        p\<lparr> duplicates := (if map_of (entries p) key \<noteq> None
                            then duplicates p @ [key] else duplicates p),
           entries := AList.update key \<lparr>e_value = val, e_hash = entry_hash_of attrs\<rparr> (entries p),
           ordered_keys := ordered_keys p @ [key] \<rparr>)"

text \<open>\<^verbatim>\<open>parse_translation_file\<close>, applied to the content read from the file.\<close>

definition parse_translation_file :: "string \<Rightarrow> xml_format option \<Rightarrow> parsed" where
  "parse_translation_file content fmt =
     foldl parse_step
       \<lparr>entries = [], ordered_keys = [], duplicates = [], raw_content = content\<rparr>
       (entry_matches fmt content)"

section \<open>Validation of format specifiers\<close>

text \<open>
  The pattern of \<^verbatim>\<open>extract_format_specifiers\<close>,
  \<^verbatim>\<open>%[-+0#]*(\d+)?(\.\d+)?(hh?|ll?|L|z|j|t)?[diouxXeEfFgGaAcspn]\<close>.
  No conversion character is a flag, a digit, a dot or a length modifier, and each part
  of the pattern starts with characters the part before it cannot continue with, so the
  match at a position is the longest run of each part in turn, followed by a conversion
  character.  The group returned is the matched text, \<^verbatim>\<open>m.group(0)\<close>.
\<close>

definition is_flag :: "char \<Rightarrow> bool" where
  "is_flag c = (c \<in> set ''-+0#'')"

definition is_digit :: "char \<Rightarrow> bool" where
  "is_digit c = (c \<in> set ''0123456789'')"

definition is_conversion :: "char \<Rightarrow> bool" where
  "is_conversion c = (c \<in> set ''diouxXeEfFgGaAcspn'')"

definition precision_len :: "string \<Rightarrow> nat" where
  "precision_len s =
     (case s of
        [] \<Rightarrow> 0
      | c # t \<Rightarrow> (if c = CHR ''.'' \<and> takeWhile is_digit t \<noteq> []
                   then Suc (length (takeWhile is_digit t)) else 0))"

definition length_modifier_len :: "string \<Rightarrow> nat" where
  "length_modifier_len s =
     (if prefix ''hh'' s then 2 else if prefix ''h'' s then 1
      else if prefix ''ll'' s then 2 else if prefix ''l'' s then 1
      else if prefix ''L'' s \<or> prefix ''z'' s \<or> prefix ''j'' s \<or> prefix ''t'' s then 1
      else 0)"

definition format_spec_pattern :: "string matcher" where
  "format_spec_pattern s =
     (case s of
        [] \<Rightarrow> None
      | c # s1 \<Rightarrow>
          if c \<noteq> CHR ''%'' then None
          else
            (let n1 = length (takeWhile is_flag s1);
                 n2 = length (takeWhile is_digit (drop n1 s1));
                 n3 = precision_len (drop (n1 + n2) s1);
                 n4 = length_modifier_len (drop (n1 + n2 + n3) s1);
                 n = n1 + n2 + n3 + n4
             in case drop n s1 of
                  [] \<Rightarrow> None
                | d # _ \<Rightarrow> if is_conversion d then Some (take (n + 2) s, n + 2) else None))"

text \<open>The specifiers in the order of the text, and \<^verbatim>\<open>extract_format_specifiers\<close>, which sorts them.\<close>

definition specifiers_in_order :: "string \<Rightarrow> string list" where
  "specifiers_in_order s = re_finditer format_spec_pattern 0 s"

definition extract_format_specifiers :: "string \<Rightarrow> string list" where
  "extract_format_specifiers s = sort (specifiers_in_order s)"

text \<open>
  The dictionary \<^verbatim>\<open>check_format_specifiers\<close> returns; the message is kept as the two
  items it prints (the two counts, or the two specifiers that differ).
\<close>

datatype issue_type = Count | Mismatch

datatype issue_message = CountMessage nat nat | MismatchMessage string string

record format_issue =
  fi_key :: string
  fi_type :: issue_type
  fi_source :: "string list"
  fi_target :: "string list"
  fi_message :: issue_message

text \<open>The loop over the indices: the first position where the two lists differ.\<close>

fun first_mismatch :: "string list \<Rightarrow> string list \<Rightarrow> (string \<times> string) option" where
  "first_mismatch (x # xs) (y # ys) = (if x \<noteq> y then Some (x, y) else first_mismatch xs ys)"
| "first_mismatch _ _ = None"

definition check_format_specifiers :: "string \<Rightarrow> string \<Rightarrow> string \<Rightarrow> format_issue option" where
  "check_format_specifiers source_value target_value key =
     (let source_specs = extract_format_specifiers source_value;
          target_specs = extract_format_specifiers target_value
      in if length source_specs \<noteq> length target_specs
         then Some \<lparr>fi_key = key, fi_type = Count, fi_source = source_specs,
                    fi_target = target_specs,
                    fi_message = CountMessage (length source_specs) (length target_specs)\<rparr>
         else (case first_mismatch source_specs target_specs of
                 Some (a, b) \<Rightarrow>
                   Some \<lparr>fi_key = key, fi_type = Mismatch, fi_source = source_specs,
                         fi_target = target_specs, fi_message = MismatchMessage a b\<rparr>
               | None \<Rightarrow> None))"

section \<open>Classification of entries\<close>

text \<open>
  \<^verbatim>\<open>get_hash\<close> is the first eight hexadecimal digits of the MD5 digest of the text;
  the digest comes from \<^verbatim>\<open>hashlib\<close> and enters every function below as the parameter
  \<open>get_hash\<close>.  A hash is false in a Python condition when it is \<^verbatim>\<open>None\<close> or empty.
\<close>

definition has_no_hash :: "string option \<Rightarrow> bool" where
  "has_no_hash h = (h = None \<or> h = Some [])"

text \<open>
  The test of the sync command for a source key that is present in the target
  (elements format): the hash differs from the source hash and the value does not
  start with the untranslated prefix.
\<close>

definition sync_is_stale :: "(string \<Rightarrow> string) \<Rightarrow> entry \<Rightarrow> entry \<Rightarrow> bool" where
  "sync_is_stale get_hash source_data lang_data =
     (e_hash lang_data \<noteq> Some (get_hash (e_value source_data))
      \<and> \<not> prefix untranslatedPrefix (e_value lang_data))"

text \<open>
  The chain of tests that \<^verbatim>\<open>check_sync\<close>, \<^verbatim>\<open>show_status\<close> and \<^verbatim>\<open>generate_report\<close> each
  run for a source entry.  The two heuristics of the untranslated test,
  \<^verbatim>\<open>is_format_only_string\<close> and \<^verbatim>\<open>is_cognate_or_international_term\<close>, decide only
  between untranslated and the later cases for a value equal to the source value; they
  enter as the predicates \<open>format_only\<close> and \<open>cognate\<close>.
\<close>

datatype entry_status = IsMissing | IsUntranslated | IsStale | IsTranslated

definition entry_status ::
  "(string \<Rightarrow> string) \<Rightarrow> (string \<Rightarrow> bool) \<Rightarrow> (string \<Rightarrow> bool) \<Rightarrow> xml_format option \<Rightarrow>
   (string \<times> entry) list \<Rightarrow> string \<Rightarrow> entry \<Rightarrow> entry_status" where
  "entry_status get_hash format_only cognate fmt lang_entries key source_data =
     (case map_of lang_entries key of
        None \<Rightarrow> IsMissing
      | Some lang_data \<Rightarrow>
          if prefix untranslatedPrefix (e_value lang_data) then IsUntranslated
          else if e_value lang_data = e_value source_data
                  \<and> \<not> format_only (e_value source_data) \<and> \<not> cognate (e_value source_data)
               then IsUntranslated
          else if fmt = Some Elements \<and> \<not> has_no_hash (e_hash lang_data)
                  \<and> e_hash lang_data \<noteq> Some (get_hash (e_value source_data))
               then IsStale
          else IsTranslated)"

section \<open>Writing entries\<close>

text \<open>
  Exceptions the code can raise without catching them: a dictionary lookup of an absent
  key, \<^verbatim>\<open>list.index\<close> of an absent item, \<^verbatim>\<open>open\<close> of an absent file.
\<close>

datatype py_error = KeyError | ValueError | FileNotFoundError

definition str_contains :: "string \<Rightarrow> string \<Rightarrow> bool" where
  "str_contains sub s = (str_find sub s \<noteq> None)"

definition str_replace_char :: "char \<Rightarrow> string \<Rightarrow> string \<Rightarrow> string" where
  "str_replace_char c r s = concat (map (\<lambda>x. if x = c then r else [x]) s)"

definition escape_xml :: "string \<Rightarrow> string" where
  "escape_xml s =
     str_replace_char (CHR 0x22) ''&quot;''
       (str_replace_char (CHR ''>'') ''&gt;''
         (str_replace_char (CHR ''<'') ''&lt;''
           (str_replace_char (CHR ''&'') ''&amp;'' s)))"

definition format_entry :: "string \<Rightarrow> string \<Rightarrow> string \<Rightarrow> xml_format option \<Rightarrow> string" where
  "format_entry key val entry_hash fmt =
     (if fmt = Some Elements
      then ''<e k=\"'' @ key @ ''\" v=\"'' @ escape_xml val @ ''\" eh=\"'' @ entry_hash @ ''\" />''
      else ''<text name=\"'' @ key @ ''\" text=\"'' @ escape_xml val @ ''\"/>'')"

text \<open>
  The replacer of \<^verbatim>\<open>update_source_hashes\<close> and of the hash update of
  \<^verbatim>\<open>sync_translations\<close>: the entry is written again with its value, the given hash, and
  the format tag when the attribute text without its \<^verbatim>\<open>eh\<close> attributes contains one.
\<close>

definition replacer :: "string \<Rightarrow> string \<Rightarrow> string \<times> string \<Rightarrow> string" where
  "replacer k sh g =
     (case g of (v, attrs) \<Rightarrow>
        (let clean_attrs = re_sub ws_eh_pattern (\<lambda>_. []) 0 attrs;
             has_tag = str_contains ''tag=\"format\"'' clean_attrs
         in if has_tag
            then ''<e k=\"'' @ k @ ''\" v=\"'' @ v @ ''\" eh=\"'' @ sh @ ''\" tag=\"format\"/>''
            else ''<e k=\"'' @ k @ ''\" v=\"'' @ v @ ''\" eh=\"'' @ sh @ ''\" />''))"

definition sub_entry_hash :: "string \<Rightarrow> string \<Rightarrow> string \<Rightarrow> string" where
  "sub_entry_hash key sh content = re_sub (key_pattern_elements key) (replacer key sh) 0 content"

section \<open>The insert position\<close>

definition key_search_end :: "xml_format option \<Rightarrow> string \<Rightarrow> string \<Rightarrow> nat option" where
  "key_search_end fmt key content =
     (if fmt = Some Elements
      then map_option snd (re_search (key_pattern_elements key) content)
      else map_option snd (re_search (key_pattern_texts key) content))"

text \<open>
  The loop of \<^verbatim>\<open>find_insert_position\<close> over the keys before the missing key, nearest
  first: the end of the first occurrence of the first of them that is in
  \<^verbatim>\<open>lang_keys\<close> and found in the text.
\<close>

fun find_predecessor_end ::
  "xml_format option \<Rightarrow> string \<Rightarrow> string set \<Rightarrow> string list \<Rightarrow> nat option" where
  "find_predecessor_end fmt content lang_keys [] = None"
| "find_predecessor_end fmt content lang_keys (prev_key # ps) =
     (if prev_key \<in> lang_keys
      then (case key_search_end fmt prev_key content of
              Some e \<Rightarrow> Some e
            | None \<Rightarrow> find_predecessor_end fmt content lang_keys ps)
      else find_predecessor_end fmt content lang_keys ps)"

definition closing_tag :: "xml_format option \<Rightarrow> string" where
  "closing_tag fmt = (if fmt = Some Elements then ''</elements>'' else ''</texts>'')"

text \<open>
  \<^verbatim>\<open>find_insert_position\<close>; \<^term>\<open>Inr None\<close> is the result \<^verbatim>\<open>-1\<close>.  \<^verbatim>\<open>list.index\<close> gives
  the first index of the key and raises for a key that is not in the list.
\<close>

definition find_insert_position ::
  "string \<Rightarrow> string \<Rightarrow> string list \<Rightarrow> string set \<Rightarrow> xml_format option \<Rightarrow> py_error + nat option" where
  "find_insert_position content key en_ordered_keys lang_keys fmt =
     (if key \<notin> set en_ordered_keys then Inl ValueError
      else (case find_predecessor_end fmt content lang_keys
                   (rev (takeWhile (\<lambda>k. k \<noteq> key) en_ordered_keys)) of
              Some e \<Rightarrow> Inr (Some e)
            | None \<Rightarrow> Inr (str_find (closing_tag fmt) content)))"

section \<open>Updating the hashes of the source file\<close>

text \<open>
  \<^verbatim>\<open>update_source_hashes\<close> on the content of the source file: the new content and the
  number of keys whose entries were rewritten.  The caller writes the file when the
  number is positive.
\<close>

definition update_source_step ::
  "(string \<Rightarrow> string) \<Rightarrow> string \<times> nat \<Rightarrow> string \<times> entry \<Rightarrow> string \<times> nat" where
  "update_source_step get_hash st kd =
     (case st of (content, updated) \<Rightarrow>
       (case kd of (key, data) \<Rightarrow>
          (let correct_hash = get_hash (e_value data)
           in if e_hash data \<noteq> Some correct_hash
              then (sub_entry_hash key correct_hash content, updated + 1)
              else (content, updated))))"

definition update_source_hashes ::
  "(string \<Rightarrow> string) \<Rightarrow> string \<Rightarrow> xml_format option \<Rightarrow> string \<times> nat" where
  "update_source_hashes get_hash content fmt =
     foldl (update_source_step get_hash) (content, 0)
       (entries (parse_translation_file content fmt))"

section \<open>The sync of one target language\<close>

text \<open>
  The first loop of \<^verbatim>\<open>sync_translations\<close> for a target: every source key, in the order
  of the source file, is looked up in \<^verbatim>\<open>source_hashes\<close> (whose keys are those of
  \<^verbatim>\<open>source_entries\<close>) and put on the missing list, on the stale list, or on neither.
\<close>

fun classify_source_keys ::
  "(string \<Rightarrow> string) \<Rightarrow> xml_format option \<Rightarrow> (string \<times> entry) list \<Rightarrow> (string \<times> entry) list \<Rightarrow>
   string list \<Rightarrow> string list \<times> string list \<Rightarrow> py_error + (string list \<times> string list)" where
  "classify_source_keys get_hash fmt source_entries lang_entries [] acc = Inr acc"
| "classify_source_keys get_hash fmt source_entries lang_entries (source_key # ks) acc =
     (case map_of source_entries source_key of
        None \<Rightarrow> Inl KeyError
      | Some source_data \<Rightarrow>
          classify_source_keys get_hash fmt source_entries lang_entries ks
            (case acc of (missing, stale) \<Rightarrow>
               (case map_of lang_entries source_key of
                  None \<Rightarrow> (missing @ [source_key], stale)
                | Some lang_data \<Rightarrow>
                    if fmt = Some Elements \<and> sync_is_stale get_hash source_data lang_data
                    then (missing, stale @ [source_key])
                    else (missing, stale))))"

definition new_entry_text ::
  "(string \<Rightarrow> string) \<Rightarrow> xml_format option \<Rightarrow> string \<Rightarrow> entry \<Rightarrow> string" where
  "new_entry_text get_hash fmt key source_data =
     [CHR 0x0A, CHR 0x09, CHR 0x09]
     @ format_entry key (untranslatedPrefix @ e_value source_data)
         (get_hash (e_value source_data)) fmt"

text \<open>
  The loop that adds the missing keys.  The state is the content, the set
  \<^verbatim>\<open>lang_key_set\<close> and the counter \<^verbatim>\<open>added\<close>.
\<close>

fun add_missing_keys ::
  "(string \<Rightarrow> string) \<Rightarrow> xml_format option \<Rightarrow> (string \<times> entry) list \<Rightarrow> string list \<Rightarrow>
   string list \<Rightarrow> string \<times> string set \<times> nat \<Rightarrow> py_error + (string \<times> string set \<times> nat)" where
  "add_missing_keys get_hash fmt source_entries source_ordered_keys [] st = Inr st"
| "add_missing_keys get_hash fmt source_entries source_ordered_keys (key # ks) st =
     (case st of (content, lang_key_set, added) \<Rightarrow>
       (case map_of source_entries key of
          None \<Rightarrow> Inl KeyError
        | Some source_data \<Rightarrow>
            (case find_insert_position content key source_ordered_keys lang_key_set fmt of
               Inl e \<Rightarrow> Inl e
             | Inr None \<Rightarrow>
                 add_missing_keys get_hash fmt source_entries source_ordered_keys ks st
             | Inr (Some insert_pos) \<Rightarrow>
                 add_missing_keys get_hash fmt source_entries source_ordered_keys ks
                   (take insert_pos content @ new_entry_text get_hash fmt key source_data
                      @ drop insert_pos content,
                    insert key lang_key_set, added + 1))))"

text \<open>The loop that updates the hashes of the entries that were present (elements format).\<close>

definition should_add_hash :: "string list \<Rightarrow> string \<Rightarrow> entry \<Rightarrow> bool" where
  "should_add_hash stale key lang_data =
     (key \<notin> set stale
      \<or> (has_no_hash (e_hash lang_data) \<and> \<not> prefix untranslatedPrefix (e_value lang_data)))"

definition update_target_step ::
  "(string \<Rightarrow> string) \<Rightarrow> (string \<times> entry) list \<Rightarrow> string list \<Rightarrow> string list \<Rightarrow>
   string \<Rightarrow> string \<times> entry \<Rightarrow> string" where
  "update_target_step get_hash lang_entries missing stale content kd =
     (case kd of (key, source_data) \<Rightarrow>
        (case map_of lang_entries key of
           None \<Rightarrow> content
         | Some lang_data \<Rightarrow>
             if key \<notin> set missing \<and> should_add_hash stale key lang_data
             then sub_entry_hash key (get_hash (e_value source_data)) content
             else content))"

record lang_result =
  lr_content :: string
  lr_missing :: "string list"
  lr_stale :: "string list"
  lr_duplicates :: "string list"
  lr_orphaned :: "string list"
  lr_added :: nat

text \<open>
  The body of the loop over the languages, from the parse of the target file to the
  content that is written back.  The validation of the entries only feeds the printed
  report and is left out.
\<close>

definition sync_language ::
  "(string \<Rightarrow> string) \<Rightarrow> xml_format option \<Rightarrow> parsed \<Rightarrow> string \<Rightarrow> py_error + lang_result" where
  "sync_language get_hash fmt source content =
     (let lang = parse_translation_file content fmt;
          lang_entries = entries lang;
          lang_keys = ordered_keys lang
      in case classify_source_keys get_hash fmt (entries source) lang_entries
                (ordered_keys source) ([], []) of
           Inl e \<Rightarrow> Inl e
         | Inr (missing, stale) \<Rightarrow>
             (case add_missing_keys get_hash fmt (entries source) (ordered_keys source)
                     missing (raw_content lang, set lang_keys, 0) of
                Inl e \<Rightarrow> Inl e
              | Inr (content1, lang_key_set, added) \<Rightarrow>
                  Inr \<lparr>lr_content =
                         (if fmt = Some Elements
                          then foldl (update_target_step get_hash lang_entries missing stale)
                                 content1 (entries source)
                          else content1),
                       lr_missing = missing,
                       lr_stale = stale,
                       lr_duplicates = duplicates lang,
                       lr_orphaned = filter (\<lambda>k. map_of (entries source) k = None) lang_keys,
                       lr_added = added\<rparr>))"

section \<open>The directory and the detection of the file set\<close>

text \<open>
  The working directory: the files in the order \<^verbatim>\<open>os.listdir\<close> yields them, each with
  the text \<^verbatim>\<open>read()\<close> returns for it.  \<^verbatim>\<open>os.path.exists\<close> is \<^term>\<open>map_of fs name \<noteq> None\<close>,
  and writing a file is \<^const>\<open>AList.update\<close>.  Every file of the directory is a text file:
  a file whose bytes are not UTF-8, for which \<^verbatim>\<open>read()\<close> raises, has no place in it.
\<close>

type_synonym file_system = "(string \<times> string) list"

definition ascii_lower :: "char \<Rightarrow> char" where
  "ascii_lower c =
     (if CHR ''A'' \<le> c \<and> c \<le> CHR ''Z'' then char_of (of_char c + (32::nat)) else c)"

definition is_lower_letter :: "char \<Rightarrow> bool" where
  "is_lower_letter c = (CHR ''a'' \<le> c \<and> c \<le> CHR ''z'')"

text \<open>
  \<^verbatim>\<open>^PREFIX_([a-z]{2})\.xml$\<close> with \<^verbatim>\<open>re.IGNORECASE\<close>, matched against a file name: the
  language code in lower case.  \<^verbatim>\<open>$\<close> also matches before a newline that ends the name.
\<close>

definition language_code_of :: "string \<Rightarrow> string \<Rightarrow> string option" where
  "language_code_of file_prefix filename =
     (let name = (if filename \<noteq> [] \<and> last filename = CHR 0x0A then butlast filename
                  else filename)
      in case strip_prefix (file_prefix @ ''_'') (map ascii_lower name) of
           None \<Rightarrow> None
         | Some r \<Rightarrow>
             if length r = 6 \<and> drop 2 r = ''.xml'' \<and> list_all is_lower_letter (take 2 r)
             then Some (take 2 r) else None)"

fun scan_listing :: "string list \<Rightarrow> string option" where
  "scan_listing [] = None"
| "scan_listing (filename # rest) =
     (if language_code_of ''lang'' filename \<noteq> None then Some ''lang''
      else if language_code_of ''translation'' filename \<noteq> None then Some ''translation''
      else if language_code_of ''l10n'' filename \<noteq> None then Some ''l10n''
      else scan_listing rest)"

definition get_lang_file_path :: "string \<Rightarrow> string \<Rightarrow> string" where
  "get_lang_file_path file_prefix lang_code = file_prefix @ ''_'' @ lang_code @ ''.xml''"

definition get_source_file_path :: "string \<Rightarrow> string" where
  "get_source_file_path file_prefix = get_lang_file_path file_prefix sourceLanguage"

definition auto_detect_file_prefix :: "file_system \<Rightarrow> string option" where
  "auto_detect_file_prefix fs =
     (if map_of fs (get_source_file_path ''lang'') \<noteq> None then Some ''lang''
      else if map_of fs (get_source_file_path ''translation'') \<noteq> None then Some ''translation''
      else if map_of fs (get_source_file_path ''l10n'') \<noteq> None then Some ''l10n''
      else scan_listing (map fst fs))"

definition auto_detect_xml_format :: "string \<Rightarrow> xml_format option" where
  "auto_detect_xml_format content =
     (if str_contains ''<e k=\"'' content then Some Elements
      else if str_contains ''<text name=\"'' content then Some Texts
      else None)"

text \<open>
  \<^verbatim>\<open>get_enabled_languages\<close>: the codes of the language files other than the source
  language, sorted.  The display name that goes with each code is left out.
\<close>

definition get_enabled_languages :: "file_system \<Rightarrow> string list" where
  "get_enabled_languages fs =
     (case auto_detect_file_prefix fs of
        None \<Rightarrow> []
      | Some file_prefix \<Rightarrow>
          sort (filter (\<lambda>code. code \<noteq> sourceLanguage)
                  (List.map_filter (language_code_of file_prefix) (map fst fs))))"

section \<open>The sync command\<close>

text \<open>
  How a command ends: \<^verbatim>\<open>sys.exit\<close> with a status, a normal return (the process then
  ends with status 0), or an exception nobody catches (the interpreter prints the
  traceback and ends with status 1).
\<close>

datatype outcome = Exit nat | Returned | Uncaught py_error

fun exit_status :: "outcome \<Rightarrow> nat" where
  "exit_status (Exit n) = n"
| "exit_status Returned = 0"
| "exit_status (Uncaught e) = 1"

text \<open>
  The loop over the enabled languages: a language whose file does not exist is skipped,
  the file of every other language is written with the content of its sync.  The
  result lists the \<^verbatim>\<open>added\<close> counters of the languages that were synced.
\<close>

fun sync_languages ::
  "(string \<Rightarrow> string) \<Rightarrow> xml_format option \<Rightarrow> parsed \<Rightarrow> string \<Rightarrow> string list \<Rightarrow>
   file_system \<times> nat list \<Rightarrow> outcome \<times> file_system \<times> nat list" where
  "sync_languages get_hash fmt source file_prefix [] st = (Returned, st)"
| "sync_languages get_hash fmt source file_prefix (lang_code # rest) st =
     (case st of (fs, added) \<Rightarrow>
       (case map_of fs (get_lang_file_path file_prefix lang_code) of
          None \<Rightarrow> sync_languages get_hash fmt source file_prefix rest st
        | Some content \<Rightarrow>
            (case sync_language get_hash fmt source content of
               Inl e \<Rightarrow> (Uncaught e, st)
             | Inr r \<Rightarrow>
                 sync_languages get_hash fmt source file_prefix rest
                   (AList.update (get_lang_file_path file_prefix lang_code) (lr_content r) fs,
                    added @ [lr_added r]))))"

text \<open>
  \<^verbatim>\<open>sync_translations\<close>: the outcome, the directory afterwards, the number of source
  keys whose hash was rewritten and the \<^verbatim>\<open>added\<close> counters.
\<close>

definition sync_translations ::
  "(string \<Rightarrow> string) \<Rightarrow> file_system \<Rightarrow> outcome \<times> file_system \<times> nat \<times> nat list" where
  "sync_translations get_hash fs =
     (case auto_detect_file_prefix fs of
        None \<Rightarrow> (Exit 1, fs, 0, [])
      | Some file_prefix \<Rightarrow>
          (case map_of fs (get_source_file_path file_prefix) of
             None \<Rightarrow> (Exit 1, fs, 0, [])
           | Some source_content \<Rightarrow>
               (case auto_detect_xml_format source_content of
                  None \<Rightarrow> (Exit 1, fs, 0, [])
                | Some f \<Rightarrow>
                    (let upd = (if f = Elements
                                then update_source_hashes get_hash source_content (Some f)
                                else (source_content, 0));
                         fs1 = (if 0 < snd upd
                                then AList.update (get_source_file_path file_prefix) (fst upd) fs
                                else fs);
                         source = parse_translation_file (fst upd) (Some f);
                         res = sync_languages get_hash (Some f) source file_prefix
                                 (get_enabled_languages fs1) (fs1, [])
                     in (fst res, fst (snd res), snd upd, snd (snd res))))))"

section \<open>The read-only commands\<close>

text \<open>
  The lists \<^verbatim>\<open>check_sync\<close> builds for one target from the parsed source and the parsed
  target: the loop over \<^verbatim>\<open>source_entries.items()\<close> and the loop over the keys of the
  target.
\<close>

record check_result =
  cr_missing :: "string list"
  cr_stale :: "string list"
  cr_untranslated :: "string list"
  cr_duplicates :: "string list"
  cr_orphaned :: "string list"

definition keys_with_status ::
  "(string \<Rightarrow> string) \<Rightarrow> (string \<Rightarrow> bool) \<Rightarrow> (string \<Rightarrow> bool) \<Rightarrow> xml_format option \<Rightarrow>
   (string \<times> entry) list \<Rightarrow> (string \<times> entry) list \<Rightarrow> entry_status \<Rightarrow> string list" where
  "keys_with_status get_hash format_only cognate fmt source_entries lang_entries st =
     map fst (filter (\<lambda>(key, source_data).
        entry_status get_hash format_only cognate fmt lang_entries key source_data = st)
        source_entries)"

definition orphaned_keys :: "(string \<times> entry) list \<Rightarrow> string list \<Rightarrow> string list" where
  "orphaned_keys source_entries lang_keys =
     filter (\<lambda>lang_key. map_of source_entries lang_key = None) lang_keys"

definition check_language ::
  "(string \<Rightarrow> string) \<Rightarrow> (string \<Rightarrow> bool) \<Rightarrow> (string \<Rightarrow> bool) \<Rightarrow> xml_format option \<Rightarrow>
   parsed \<Rightarrow> parsed \<Rightarrow> check_result" where
  "check_language get_hash format_only cognate fmt source lang =
     \<lparr>cr_missing = keys_with_status get_hash format_only cognate fmt
                      (entries source) (entries lang) IsMissing,
      cr_stale = keys_with_status get_hash format_only cognate fmt
                    (entries source) (entries lang) IsStale,
      cr_untranslated = keys_with_status get_hash format_only cognate fmt
                           (entries source) (entries lang) IsUntranslated,
      cr_duplicates = duplicates lang,
      cr_orphaned = orphaned_keys (entries source) (ordered_keys lang)\<rparr>"

text \<open>
  What a language contributes to \<^verbatim>\<open>has_problems\<close>: its file is not found, or the list of
  issues is not empty and there are missing keys, duplicates or orphaned keys.
\<close>

definition language_has_problems :: "check_result \<Rightarrow> bool" where
  "language_has_problems r =
     (\<not> (cr_missing r = [] \<and> cr_stale r = [] \<and> cr_untranslated r = []
          \<and> cr_duplicates r = [] \<and> cr_orphaned r = [])
      \<and> (cr_missing r \<noteq> [] \<or> cr_duplicates r \<noteq> [] \<or> cr_orphaned r \<noteq> []))"

fun check_languages ::
  "(string \<Rightarrow> string) \<Rightarrow> (string \<Rightarrow> bool) \<Rightarrow> (string \<Rightarrow> bool) \<Rightarrow> xml_format option \<Rightarrow>
   parsed \<Rightarrow> file_system \<Rightarrow> string \<Rightarrow> string list \<Rightarrow> bool \<Rightarrow> bool" where
  "check_languages get_hash format_only cognate fmt source fs file_prefix [] has_problems =
     has_problems"
| "check_languages get_hash format_only cognate fmt source fs file_prefix (lang_code # rest)
     has_problems =
     check_languages get_hash format_only cognate fmt source fs file_prefix rest
       (case map_of fs (get_lang_file_path file_prefix lang_code) of
          None \<Rightarrow> True
        | Some content \<Rightarrow>
            if language_has_problems
                 (check_language get_hash format_only cognate fmt source
                    (parse_translation_file content fmt))
            then True else has_problems)"

text \<open>
  \<^verbatim>\<open>check_sync\<close>.  The format that \<^verbatim>\<open>auto_detect_xml_format\<close> returns is passed on as
  it is, also when it is \<^verbatim>\<open>None\<close>.
\<close>

definition check_sync ::
  "(string \<Rightarrow> string) \<Rightarrow> (string \<Rightarrow> bool) \<Rightarrow> (string \<Rightarrow> bool) \<Rightarrow> file_system \<Rightarrow> outcome" where
  "check_sync get_hash format_only cognate fs =
     (case auto_detect_file_prefix fs of
        None \<Rightarrow> Exit 1
      | Some file_prefix \<Rightarrow>
          (case map_of fs (get_source_file_path file_prefix) of
             None \<Rightarrow> Exit 1
           | Some source_content \<Rightarrow>
               (let fmt = auto_detect_xml_format source_content;
                    source = parse_translation_file source_content fmt
                in if check_languages get_hash format_only cognate fmt source fs file_prefix
                        (get_enabled_languages fs) False
                   then Exit 1 else Exit 0)))"

text \<open>
  The counters of \<^verbatim>\<open>show_status\<close> and the lists of \<^verbatim>\<open>generate_report\<close> for one target.
\<close>

record status_row =
  sr_translated :: nat
  sr_stale :: nat
  sr_untranslated :: nat
  sr_missing :: nat
  sr_orphaned :: nat
  sr_format_errs :: nat
  sr_duplicates :: nat

definition status_language ::
  "(string \<Rightarrow> string) \<Rightarrow> (string \<Rightarrow> bool) \<Rightarrow> (string \<Rightarrow> bool) \<Rightarrow> xml_format option \<Rightarrow>
   parsed \<Rightarrow> parsed \<Rightarrow> status_row" where
  "status_language get_hash format_only cognate fmt source lang =
     \<lparr>sr_translated = length (keys_with_status get_hash format_only cognate fmt
                                (entries source) (entries lang) IsTranslated),
      sr_stale = length (keys_with_status get_hash format_only cognate fmt
                           (entries source) (entries lang) IsStale),
      sr_untranslated = length (keys_with_status get_hash format_only cognate fmt
                                  (entries source) (entries lang) IsUntranslated),
      sr_missing = length (keys_with_status get_hash format_only cognate fmt
                             (entries source) (entries lang) IsMissing),
      sr_orphaned = length (orphaned_keys (entries source) (ordered_keys lang)),
      sr_format_errs =
        length (filter (\<lambda>(key, source_data).
          (case map_of (entries lang) key of
             None \<Rightarrow> False
           | Some lang_data \<Rightarrow>
               check_format_specifiers (e_value source_data) (e_value lang_data) key \<noteq> None
               \<and> \<not> prefix untranslatedPrefix (e_value lang_data))) (entries source)),
      sr_duplicates = length (duplicates lang)\<rparr>"

record report_lists =
  rl_translated :: "string list"
  rl_missing :: "string list"
  rl_stale :: "string list"
  rl_untranslated :: "string list"
  rl_duplicates :: "string list"
  rl_orphaned :: "string list"

definition report_language ::
  "(string \<Rightarrow> string) \<Rightarrow> (string \<Rightarrow> bool) \<Rightarrow> (string \<Rightarrow> bool) \<Rightarrow> xml_format option \<Rightarrow>
   parsed \<Rightarrow> parsed \<Rightarrow> report_lists" where
  "report_language get_hash format_only cognate fmt source lang =
     \<lparr>rl_translated = keys_with_status get_hash format_only cognate fmt
                         (entries source) (entries lang) IsTranslated,
      rl_missing = keys_with_status get_hash format_only cognate fmt
                      (entries source) (entries lang) IsMissing,
      rl_stale = keys_with_status get_hash format_only cognate fmt
                    (entries source) (entries lang) IsStale,
      rl_untranslated = keys_with_status get_hash format_only cognate fmt
                           (entries source) (entries lang) IsUntranslated,
      rl_duplicates = duplicates lang,
      rl_orphaned = orphaned_keys (entries source) (ordered_keys lang)\<rparr>"

text \<open>
  \<^verbatim>\<open>show_status\<close> and \<^verbatim>\<open>generate_report\<close> open the source file without asking whether it
  exists, print one block per language and return.  The result is the outcome and the
  rows of the languages whose file exists.
\<close>

definition show_status ::
  "(string \<Rightarrow> string) \<Rightarrow> (string \<Rightarrow> bool) \<Rightarrow> (string \<Rightarrow> bool) \<Rightarrow> file_system \<Rightarrow>
   outcome \<times> status_row list" where
  "show_status get_hash format_only cognate fs =
     (case auto_detect_file_prefix fs of
        None \<Rightarrow> (Exit 1, [])
      | Some file_prefix \<Rightarrow>
          (case map_of fs (get_source_file_path file_prefix) of
             None \<Rightarrow> (Uncaught FileNotFoundError, [])
           | Some source_content \<Rightarrow>
               (let fmt = auto_detect_xml_format source_content;
                    source = parse_translation_file source_content fmt
                in (Returned,
                    map (\<lambda>content. status_language get_hash format_only cognate fmt source
                                      (parse_translation_file content fmt))
                      (List.map_filter (\<lambda>code. map_of fs (get_lang_file_path file_prefix code))
                         (get_enabled_languages fs))))))"

definition generate_report ::
  "(string \<Rightarrow> string) \<Rightarrow> (string \<Rightarrow> bool) \<Rightarrow> (string \<Rightarrow> bool) \<Rightarrow> file_system \<Rightarrow>
   outcome \<times> report_lists list" where
  "generate_report get_hash format_only cognate fs =
     (case auto_detect_file_prefix fs of
        None \<Rightarrow> (Exit 1, [])
      | Some file_prefix \<Rightarrow>
          (case map_of fs (get_source_file_path file_prefix) of
             None \<Rightarrow> (Uncaught FileNotFoundError, [])
           | Some source_content \<Rightarrow>
               (let fmt = auto_detect_xml_format source_content;
                    source = parse_translation_file source_content fmt
                in (Returned,
                    map (\<lambda>content. report_language get_hash format_only cognate fmt source
                                      (parse_translation_file content fmt))
                      (List.map_filter (\<lambda>code. map_of fs (get_lang_file_path file_prefix code))
                         (get_enabled_languages fs))))))"

text \<open>\<^verbatim>\<open>validate_sync\<close>: the loop stops at the first language with a problem.\<close>

fun validate_languages ::
  "xml_format option \<Rightarrow> parsed \<Rightarrow> file_system \<Rightarrow> string \<Rightarrow> string list \<Rightarrow> bool" where
  "validate_languages fmt source fs file_prefix [] = False"
| "validate_languages fmt source fs file_prefix (lang_code # rest) =
     (case map_of fs (get_lang_file_path file_prefix lang_code) of
        None \<Rightarrow> True
      | Some content \<Rightarrow>
          if list_ex (\<lambda>key. map_of (entries (parse_translation_file content fmt)) key = None)
               (map fst (entries source))
          then True
          else validate_languages fmt source fs file_prefix rest)"

definition validate_sync :: "file_system \<Rightarrow> outcome" where
  "validate_sync fs =
     (case auto_detect_file_prefix fs of
        None \<Rightarrow> Exit 1
      | Some file_prefix \<Rightarrow>
          (case map_of fs (get_source_file_path file_prefix) of
             None \<Rightarrow> Exit 1
           | Some source_content \<Rightarrow>
               (let fmt = auto_detect_xml_format source_content;
                    source = parse_translation_file source_content fmt
                in if validate_languages fmt source fs file_prefix (get_enabled_languages fs)
                   then Exit 1 else Exit 0)))"

section \<open>Characterisations and example files\<close>

text \<open>The dictionary entry that a match of the entry pattern is stored as.\<close>

definition entry_of :: "string \<times> string \<times> string \<Rightarrow> string \<times> entry" where
  "entry_of m = (case m of (k, v, a) \<Rightarrow> (k, \<lparr>e_value = v, e_hash = entry_hash_of a\<rparr>))"

text \<open>The two lists of the first loop of the sync, written as filters.\<close>

definition missing_keys :: "(string \<times> entry) list \<Rightarrow> string list \<Rightarrow> string list" where
  "missing_keys lang_entries ks = filter (\<lambda>k. map_of lang_entries k = None) ks"

definition stale_keys ::
  "(string \<Rightarrow> string) \<Rightarrow> xml_format option \<Rightarrow> (string \<times> entry) list \<Rightarrow> (string \<times> entry) list \<Rightarrow>
   string list \<Rightarrow> string list" where
  "stale_keys get_hash fmt source_entries lang_entries ks =
     filter (\<lambda>k. case map_of source_entries k of
                   None \<Rightarrow> False
                 | Some sd \<Rightarrow> (case map_of lang_entries k of
                                None \<Rightarrow> False
                              | Some ld \<Rightarrow> fmt = Some Elements \<and> sync_is_stale get_hash sd ld)) ks"

text \<open>
  A fingerprint for the examples: eight hexadecimal digits that depend on the length of
  the text.
\<close>

definition length_hash :: "string \<Rightarrow> string" where
  "length_hash s = ''0000000'' @ [''0123456789abcdef'' ! (length s mod 16)]"

text \<open>A file in which the key \<^verbatim>\<open>a\<close> stands twice.\<close>

definition dup_file :: string where
  "dup_file = ''<elements><e k=\"a\" v=\"X\"/><e k=\"a\" v=\"Y\"/></elements>''"

text \<open>
  A source file whose entry \<^verbatim>\<open>a\<close> was edited after the translation, a target that was
  translated from the older text, and a target whose entry has no hash.
\<close>

definition stale_source :: string where
  "stale_source = ''<elements><e k=\"a\" v=\"Hello!\" eh=\"00000006\" /><e k=\"b\" v=\"Yes\" eh=\"00000003\" /></elements>''"

definition stale_target :: string where
  "stale_target = ''<elements><e k=\"a\" v=\"Bonjour\" eh=\"00000005\" /></elements>''"

definition hashless_target :: string where
  "hashless_target = ''<elements><e k=\"a\" v=\"Bonjour\"/></elements>''"

text \<open>
  The file prefix and the content of the source file, when a source file is found; and
  what makes a target count for the exit status of the check command: its file does not
  exist, a source key is missing from it, a key is recorded as a duplicate, or one of its
  keys is not a source key.
\<close>

definition detected_source :: "file_system \<Rightarrow> (string \<times> string) option" where
  "detected_source fs =
     (case auto_detect_file_prefix fs of
        None \<Rightarrow> None
      | Some file_prefix \<Rightarrow>
          map_option (\<lambda>content. (file_prefix, content)) (map_of fs (get_source_file_path file_prefix)))"

definition target_has_defect :: "xml_format option \<Rightarrow> parsed \<Rightarrow> string option \<Rightarrow> bool" where
  "target_has_defect fmt source file =
     (case file of
        None \<Rightarrow> True
      | Some content \<Rightarrow>
          (\<exists>k \<in> fst ` set (entries source).
              map_of (entries (parse_translation_file content fmt)) k = None)
          \<or> (\<exists>k. k \<in> set (duplicates (parse_translation_file content fmt)))
          \<or> (\<exists>k \<in> set (ordered_keys (parse_translation_file content fmt)).
                map_of (entries source) k = None))"

text \<open>
  A target whose entry \<^verbatim>\<open>a\<close> is stale and whose entry \<^verbatim>\<open>b\<close> is untranslated, a directory
  with this target, and a directory whose target lacks the key \<^verbatim>\<open>b\<close>.
\<close>

definition pending_target :: string where
  "pending_target = ''<elements><e k=\"a\" v=\"Bonjour\" eh=\"00000005\" /><e k=\"b\" v=\"[EN] Yes\" eh=\"00000003\" /></elements>''"

definition pending_dir :: file_system where
  "pending_dir = [(''lang_sync.py'', ''import sys''),
                  (''lang_en.xml'', stale_source),
                  (''lang_de.xml'', pending_target)]"

definition incomplete_dir :: file_system where
  "incomplete_dir = [(''lang_sync.py'', ''import sys''),
                     (''lang_en.xml'', stale_source),
                     (''lang_de.xml'', stale_target)]"

text \<open>A directory whose source file carries neither entry marker.\<close>

definition undetected_dir :: file_system where
  "undetected_dir = [(''lang_sync.py'', ''import sys''),
                     (''lang_en.xml'', ''<l10n></l10n>''),
                     (''lang_de.xml'', ''<l10n></l10n>'')]"

section \<open>Well-formed documents\<close>

text \<open>
  The marker that starts an entry of the format, and the text of an entry with the given
  key, value and attribute text (for the texts format: the white space before the
  closing \<^verbatim>\<open>/>\<close>).
\<close>

definition marker :: "xml_format option \<Rightarrow> string" where
  "marker fmt = (if fmt = Some Elements then ''<e k=\"'' else ''<text name=\"'')"

definition entry_text :: "xml_format option \<Rightarrow> string \<times> string \<times> string \<Rightarrow> string" where
  "entry_text fmt e =
     (case e of (k, v, a) \<Rightarrow>
        if fmt = Some Elements then ''<e k=\"'' @ k @ ''\" v=\"'' @ v @ [CHR 0x22] @ a @ ''/>''
        else ''<text name=\"'' @ k @ ''\" text=\"'' @ v @ [CHR 0x22] @ a @ ''/>'')"

text \<open>
  An entry is well formed when its key is not empty, neither key nor value holds a quote
  or \<^verbatim>\<open><\<close>, and its attribute text holds neither \<^verbatim>\<open><\<close> nor \<^verbatim>\<open>>\<close> (elements format) or
  is white space (texts format).
\<close>

definition wf_entry :: "xml_format option \<Rightarrow> string \<times> string \<times> string \<Rightarrow> bool" where
  "wf_entry fmt e =
     (case e of (k, v, a) \<Rightarrow>
        k \<noteq> [] \<and> CHR 0x22 \<notin> set k \<and> CHR ''<'' \<notin> set k
        \<and> CHR 0x22 \<notin> set v \<and> CHR ''<'' \<notin> set v
        \<and> (if fmt = Some Elements then CHR ''>'' \<notin> set a \<and> CHR ''<'' \<notin> set a
            else list_all is_space a))"

text \<open>
  \<open>quiet mk u s\<close>: in the text \<open>u\<close> followed by \<open>s\<close>, no occurrence of \<open>mk\<close> starts within
  \<open>u\<close>.  A text is plain when it holds no occurrence of the marker.
\<close>

fun quiet :: "string \<Rightarrow> string \<Rightarrow> string \<Rightarrow> bool" where
  "quiet mk [] s = True"
| "quiet mk (c # cs) s = (\<not> prefix mk (c # cs @ s) \<and> quiet mk cs s)"

definition plain :: "xml_format option \<Rightarrow> string \<Rightarrow> bool" where
  "plain fmt t = quiet (marker fmt) t []"

text \<open>A pattern that can only match where the marker stands.\<close>

definition anchored :: "string \<Rightarrow> 'g matcher \<Rightarrow> bool" where
  "anchored mk m = (\<forall>s. m s \<noteq> None \<longrightarrow> prefix mk s)"

text \<open>
  A document: a leading text, and the entries in document order, each with the text
  that follows it.  Its rendering is the content of the file.
\<close>

type_synonym doc_entry = "string \<times> string \<times> string"

type_synonym doc = "string \<times> (doc_entry \<times> string) list"

fun body :: "xml_format option \<Rightarrow> (doc_entry \<times> string) list \<Rightarrow> string" where
  "body fmt [] = []"
| "body fmt ((e, t) # es) = entry_text fmt e @ t @ body fmt es"

definition render :: "xml_format option \<Rightarrow> doc \<Rightarrow> string" where
  "render fmt d = fst d @ body fmt (snd d)"

definition wf_body :: "xml_format option \<Rightarrow> (doc_entry \<times> string) list \<Rightarrow> bool" where
  "wf_body fmt es = list_all (\<lambda>(e, t). wf_entry fmt e \<and> plain fmt t) es"

definition wf_doc :: "xml_format option \<Rightarrow> doc \<Rightarrow> bool" where
  "wf_doc fmt d = (plain fmt (fst d) \<and> wf_body fmt (snd d))"

definition doc_keys :: "(doc_entry \<times> string) list \<Rightarrow> string list" where
  "doc_keys es = map (\<lambda>(e, t). fst e) es"

text \<open>
  What the parser reads from an entry of a document: for the texts format the pattern
  has no group for the text after the value.
\<close>

definition read_entry :: "xml_format option \<Rightarrow> doc_entry \<Rightarrow> doc_entry" where
  "read_entry fmt e = (case e of (k, v, a) \<Rightarrow> (k, v, if fmt = Some Elements then a else []))"

definition doc_matches :: "xml_format option \<Rightarrow> (doc_entry \<times> string) list \<Rightarrow> doc_entry list" where
  "doc_matches fmt es = map (\<lambda>(e, t). read_entry fmt e) es"

text \<open>
  An offset into the body of a document, chosen by a function that picks an offset in
  the text after an entry: the offset of the first such pick.
\<close>

fun off_body ::
  "xml_format option \<Rightarrow> (doc_entry \<Rightarrow> string \<Rightarrow> nat option) \<Rightarrow> (doc_entry \<times> string) list \<Rightarrow>
   nat option" where
  "off_body fmt P [] = None"
| "off_body fmt P ((e, t) # es) =
     (case P e t of
        Some i \<Rightarrow> Some (length (entry_text fmt e) + i)
      | None \<Rightarrow> map_option (\<lambda>n. length (entry_text fmt e) + length t + n) (off_body fmt P es))"

definition after_key :: "string \<Rightarrow> doc_entry \<Rightarrow> string \<Rightarrow> nat option" where
  "after_key key e t = (if fst e = key then Some 0 else None)"

definition at_closing :: "xml_format option \<Rightarrow> doc_entry \<Rightarrow> string \<Rightarrow> nat option" where
  "at_closing fmt e t = str_find (closing_tag fmt) t"

text \<open>The entry that the replacer writes for an entry of the key.\<close>

definition has_format_tag :: "string \<Rightarrow> bool" where
  "has_format_tag attrs =
     str_contains ''tag=\"format\"'' (re_sub ws_eh_pattern (\<lambda>_. []) 0 attrs)"

definition hash_attrs :: "string \<Rightarrow> string \<Rightarrow> string" where
  "hash_attrs sh attrs =
     (if has_format_tag attrs then '' eh=\"'' @ sh @ ''\" tag=\"format\"''
      else '' eh=\"'' @ sh @ ''\" '')"

definition rehash :: "string \<Rightarrow> string \<Rightarrow> doc_entry \<Rightarrow> doc_entry" where
  "rehash key sh e = (case e of (k, v, a) \<Rightarrow> if k = key then (k, v, hash_attrs sh a) else e)"

definition map_entries ::
  "(doc_entry \<Rightarrow> doc_entry) \<Rightarrow> (doc_entry \<times> string) list \<Rightarrow> (doc_entry \<times> string) list" where
  "map_entries f es = map (\<lambda>(e, t). (f e, t)) es"

text \<open>
  The text that the sync puts before a new entry, and the insertion of a new entry into
  the text after an entry, at the offset picked there.
\<close>

definition new_line :: string where
  "new_line = [CHR 0x0A, CHR 0x09, CHR 0x09]"

fun ins_body ::
  "(doc_entry \<Rightarrow> string \<Rightarrow> nat option) \<Rightarrow> doc_entry \<Rightarrow> (doc_entry \<times> string) list \<Rightarrow>
   (doc_entry \<times> string) list" where
  "ins_body P new [] = []"
| "ins_body P new ((e, t) # es) =
     (case P e t of
        Some i \<Rightarrow> (e, take i t @ new_line) # (new, drop i t) # es
      | None \<Rightarrow> (e, t) # ins_body P new es)"

text \<open>A choice of a position in the text after an entry lies within that text.\<close>

definition bounded_pick :: "(doc_entry \<Rightarrow> string \<Rightarrow> nat option) \<Rightarrow> bool" where
  "bounded_pick P = (\<forall>e t i. P e t = Some i \<longrightarrow> i \<le> length t)"

text \<open>
  A key that can stand in an entry of a well-formed document, and a fingerprint
  function whose values can stand in an \<^verbatim>\<open>eh\<close> attribute (the hexadecimal digits of
  \<^verbatim>\<open>get_hash\<close> can).
\<close>

definition good_key :: "string \<Rightarrow> bool" where
  "good_key k = (k \<noteq> [] \<and> CHR 0x22 \<notin> set k \<and> CHR ''<'' \<notin> set k)"

definition good_hash :: "(string \<Rightarrow> string) \<Rightarrow> bool" where
  "good_hash get_hash =
     (\<forall>s. CHR 0x22 \<notin> set (get_hash s) \<and> CHR ''<'' \<notin> set (get_hash s)
          \<and> CHR ''>'' \<notin> set (get_hash s))"

text \<open>The entry that the sync writes for a missing key, as an entry of a document.\<close>

definition new_entry ::
  "(string \<Rightarrow> string) \<Rightarrow> xml_format option \<Rightarrow> string \<Rightarrow> entry \<Rightarrow> doc_entry" where
  "new_entry get_hash fmt key source_data =
     (key, escape_xml (untranslatedPrefix @ e_value source_data),
      if fmt = Some Elements then '' eh=\"'' @ get_hash (e_value source_data) @ ''\" '' else [])"

text \<open>
  The insert position in a document: the keys before the first occurrence of the
  missing key in the source order are tried from the nearest one; the position is the
  end of the first entry of the first of them that the document has, and otherwise the
  first occurrence of the closing tag of the container.
\<close>

definition predecessors :: "string list \<Rightarrow> string \<Rightarrow> string list" where
  "predecessors en_ordered_keys key = rev (takeWhile (\<lambda>k. k \<noteq> key) en_ordered_keys)"

definition nearest_predecessor :: "string list \<Rightarrow> string \<Rightarrow> doc \<Rightarrow> string option" where
  "nearest_predecessor en_ordered_keys key d =
     find (\<lambda>p. p \<in> set (doc_keys (snd d))) (predecessors en_ordered_keys key)"

definition ins_pos :: "xml_format option \<Rightarrow> string list \<Rightarrow> string \<Rightarrow> doc \<Rightarrow> nat option" where
  "ins_pos fmt en_ordered_keys key d =
     (case nearest_predecessor en_ordered_keys key d of
        Some p \<Rightarrow> map_option (\<lambda>n. length (fst d) + n) (off_body fmt (after_key p) (snd d))
      | None \<Rightarrow>
          (case str_find (closing_tag fmt) (fst d) of
             Some i \<Rightarrow> Some i
           | None \<Rightarrow> map_option (\<lambda>n. length (fst d) + n)
                       (off_body fmt (at_closing fmt) (snd d))))"

text \<open>The document with the new entry at that position.\<close>

definition ins_doc :: "xml_format option \<Rightarrow> string list \<Rightarrow> doc_entry \<Rightarrow> doc \<Rightarrow> doc option" where
  "ins_doc fmt en_ordered_keys new d =
     (case nearest_predecessor en_ordered_keys (fst new) d of
        Some p \<Rightarrow> Some (fst d, ins_body (after_key p) new (snd d))
      | None \<Rightarrow>
          (case str_find (closing_tag fmt) (fst d) of
             Some i \<Rightarrow> Some (take i (fst d) @ new_line, (new, drop i (fst d)) # snd d)
           | None \<Rightarrow>
               (case off_body fmt (at_closing fmt) (snd d) of
                  Some n \<Rightarrow> Some (fst d, ins_body (at_closing fmt) new (snd d))
                | None \<Rightarrow> None)))"

text \<open>The loop that adds the missing keys, on a document.\<close>

fun add_missing_doc ::
  "(string \<Rightarrow> string) \<Rightarrow> xml_format option \<Rightarrow> (string \<times> entry) list \<Rightarrow> string list \<Rightarrow>
   string list \<Rightarrow> doc \<times> nat \<Rightarrow> doc \<times> nat" where
  "add_missing_doc get_hash fmt source_entries en_ordered_keys [] st = st"
| "add_missing_doc get_hash fmt source_entries en_ordered_keys (key # ks) st =
     (case map_of source_entries key of
        None \<Rightarrow> st
      | Some source_data \<Rightarrow>
          (case ins_doc fmt en_ordered_keys (new_entry get_hash fmt key source_data) (fst st) of
             None \<Rightarrow> add_missing_doc get_hash fmt source_entries en_ordered_keys ks st
           | Some d \<Rightarrow>
               add_missing_doc get_hash fmt source_entries en_ordered_keys ks (d, snd st + 1)))"

text \<open>
  The hash update of the sync on the entries of a document: what one step of the loop
  over the source entries does to an entry, and what the whole loop does to it.
\<close>

definition refresh_step ::
  "(string \<Rightarrow> string) \<Rightarrow> (string \<times> entry) list \<Rightarrow> string list \<Rightarrow> string list \<Rightarrow>
   doc_entry \<Rightarrow> string \<times> entry \<Rightarrow> doc_entry" where
  "refresh_step get_hash lang_entries missing stale e kd =
     (case kd of (key, source_data) \<Rightarrow>
        (case map_of lang_entries key of
           None \<Rightarrow> e
         | Some lang_data \<Rightarrow>
             if key \<notin> set missing \<and> should_add_hash stale key lang_data
             then rehash key (get_hash (e_value source_data)) e
             else e))"

definition refresh_entry ::
  "(string \<Rightarrow> string) \<Rightarrow> (string \<times> entry) list \<Rightarrow> string list \<Rightarrow> string list \<Rightarrow>
   (string \<times> entry) list \<Rightarrow> doc_entry \<Rightarrow> doc_entry" where
  "refresh_entry get_hash lang_entries missing stale source_entries e =
     foldl (refresh_step get_hash lang_entries missing stale) e source_entries"

text \<open>
  The sync of one target language on a document: the missing keys are added in the
  order of the source, then the hashes are updated (elements format).  The result is
  the document and the number of entries added.
\<close>

definition sync_doc ::
  "(string \<Rightarrow> string) \<Rightarrow> xml_format option \<Rightarrow> parsed \<Rightarrow> doc \<Rightarrow> doc \<times> nat" where
  "sync_doc get_hash fmt source d =
     (let lang_entries = entries (parse_translation_file (render fmt d) fmt);
          missing = missing_keys lang_entries (ordered_keys source);
          stale = stale_keys get_hash fmt (entries source) lang_entries (ordered_keys source);
          r = add_missing_doc get_hash fmt (entries source) (ordered_keys source) missing (d, 0)
      in (if fmt = Some Elements
          then (fst (fst r),
                map_entries (refresh_entry get_hash lang_entries missing stale (entries source))
                  (snd (fst r)))
          else fst r,
          snd r))"

text \<open>
  What the sync needs of a parsed source: every key of the source order has an entry,
  the keys can stand in an entry, and no key has two entries in the dictionary.
\<close>

definition good_source :: "parsed \<Rightarrow> bool" where
  "good_source source =
     (set (ordered_keys source) = fst ` set (entries source)
      \<and> (\<forall>k \<in> set (ordered_keys source). good_key k)
      \<and> distinct (map fst (entries source)))"

text \<open>The dictionary entry of a key in a document: the last entry with the key.\<close>

definition doc_lookup ::
  "xml_format option \<Rightarrow> (doc_entry \<times> string) list \<Rightarrow> string \<Rightarrow> entry option" where
  "doc_lookup fmt es = map_of (rev (map (\<lambda>(e, t). entry_of (read_entry fmt e)) es))"







text \<open>
  A target document whose entry \<^verbatim>\<open>a\<close> carries the hash of an older source text and whose
  entry \<^verbatim>\<open>b\<close> has no hash.
\<close>

definition contract_doc :: doc where
  "contract_doc =
     (''<elements>'',
      [((''a'', ''Bonjour'', '' eh=\"00000005\" ''), ''''),
       ((''b'', ''Oui'', ''''), ''</elements>'')])"

section \<open>Properties of the parser\<close>

lemma parse_step_fields:
  "ordered_keys (parse_step p (k, v, a)) = ordered_keys p @ [k]"
  "entries (parse_step p (k, v, a)) =
     AList.update k \<lparr>e_value = v, e_hash = entry_hash_of a\<rparr> (entries p)"
  "duplicates (parse_step p (k, v, a)) =
     (if k \<in> fst ` set (entries p) then duplicates p @ [k] else duplicates p)"
  "raw_content (parse_step p (k, v, a)) = raw_content p"
  by (simp_all add: parse_step_def map_of_eq_None_iff)

lemma parse_fold_ordered: "ordered_keys (foldl parse_step p ms) = ordered_keys p @ map fst ms"
  by (induction ms rule: rev_induct) (auto simp: parse_step_fields)

lemma parse_fold_raw: "raw_content (foldl parse_step p ms) = raw_content p"
proof (induction ms rule: rev_induct)
  case Nil
  then show ?case by simp
next
  case (snoc m ms)
  obtain k v a where "m = (k, v, a)" by (cases m)
  then show ?case using snoc by (simp add: parse_step_fields)
qed

lemma parse_fold_lookup:
  "map_of (entries (foldl parse_step p ms)) = map_of (rev (map entry_of ms) @ entries p)"
  by (induction ms rule: rev_induct)
     (auto simp: parse_step_fields entry_of_def update_conv')

lemma parse_fold_dom:
  "fst ` set (entries (foldl parse_step p ms)) = fst ` set (entries p) \<union> fst ` set ms"
proof (induction ms rule: rev_induct)
  case Nil
  then show ?case by simp
next
  case (snoc m ms)
  obtain k v a where "m = (k, v, a)" by (cases m)
  then show ?case using snoc by (auto simp: parse_step_fields dom_update)
qed

lemma parse_fold_distinct:
  "distinct (map fst (entries p)) \<Longrightarrow> distinct (map fst (entries (foldl parse_step p ms)))"
proof (induction ms rule: rev_induct)
  case Nil
  then show ?case by simp
next
  case (snoc m ms)
  obtain k v a where "m = (k, v, a)" by (cases m)
  then show ?case using snoc by (simp add: parse_step_fields distinct_update)
qed

lemma parse_fold_duplicates:
  "count_list (duplicates (foldl parse_step p ms)) k =
     count_list (duplicates p) k + count_list (map fst ms) k
       - (if k \<in> fst ` set (entries p) \<or> k \<notin> fst ` set ms then 0 else 1)"
proof (induction ms rule: rev_induct)
  case Nil
  then show ?case by simp
next
  case (snoc m ms)
  obtain key v a where m: "m = (key, v, a)" by (cases m)
  have pos: "k \<in> fst ` set ms \<Longrightarrow> 0 < count_list (map fst ms) k"
    using count_list_0_iff [of "map fst ms" k] by auto
  show ?case
  proof (cases "key = k")
    case False
    then show ?thesis using snoc by (auto simp: parse_step_fields m parse_fold_dom)
  next
    case True
    show ?thesis
    proof (cases "k \<in> fst ` set (entries p) \<union> fst ` set ms")
      case True
      then show ?thesis using snoc \<open>key = k\<close> pos
        by (auto simp: parse_step_fields m parse_fold_dom)
    next
      case False
      then have "count_list (map fst ms) k = 0" by (simp add: count_list_0_iff)
      with False show ?thesis using snoc \<open>key = k\<close>
        by (auto simp: parse_step_fields m parse_fold_dom)
    qed
  qed
qed

lemma parse_ordered_keys:
  "ordered_keys (parse_translation_file content fmt) = map fst (entry_matches fmt content)"
  by (simp add: parse_translation_file_def parse_fold_ordered)

lemma parse_raw_content: "raw_content (parse_translation_file content fmt) = content"
  by (simp add: parse_translation_file_def parse_fold_raw)

lemma parse_lookup:
  "map_of (entries (parse_translation_file content fmt)) =
     map_of (rev (map entry_of (entry_matches fmt content)))"
  by (simp add: parse_translation_file_def parse_fold_lookup)

lemma parse_keys:
  "fst ` set (entries (parse_translation_file content fmt)) =
     set (ordered_keys (parse_translation_file content fmt))"
  by (simp add: parse_translation_file_def parse_fold_dom parse_fold_ordered)

lemma parse_distinct: "distinct (map fst (entries (parse_translation_file content fmt)))"
  by (simp add: parse_translation_file_def parse_fold_distinct)

lemma parse_lookup_last:
  assumes "entry_matches fmt content = xs @ (k, v, a) # ys" and "k \<notin> fst ` set ys"
  shows "map_of (entries (parse_translation_file content fmt)) k =
           Some \<lparr>e_value = v, e_hash = entry_hash_of a\<rparr>"
proof -
  have "map_of (rev (map entry_of ys)) k = None"
    using assms(2) by (force simp: map_of_eq_None_iff entry_of_def image_iff split: prod.splits)
  then show ?thesis
    by (simp add: parse_lookup assms(1) map_add_def entry_of_def)
qed

lemma parse_duplicates_count:
  "count_list (duplicates (parse_translation_file content fmt)) k =
     count_list (map fst (entry_matches fmt content)) k - 1"
proof (cases "k \<in> fst ` set (entry_matches fmt content)")
  case True
  then show ?thesis by (simp add: parse_translation_file_def parse_fold_duplicates)
next
  case False
  then have "count_list (map fst (entry_matches fmt content)) k = 0"
    by (simp add: count_list_0_iff)
  then show ?thesis using False by (simp add: parse_translation_file_def parse_fold_duplicates)
qed

lemma dup_file_matches:
  "entry_matches (Some Elements) dup_file = [] @ (''a'', ''X'', []) # [] @ (''a'', ''Y'', []) # []"
  by code_simp

lemma dup_file_split:
  "entry_matches (Some Elements) dup_file = [(''a'', ''X'', [])] @ (''a'', ''Y'', []) # []"
  by code_simp

text \<open>
  C9 (duplicate detection).  The occurrences of entries in a file are the matches of the
  entry pattern, in document order.  When a key occurs exactly twice among them, with
  different values, the parse records the key exactly once as a duplicate, the lookup
  of the key in the entry map gives the value of the second (last) occurrence, and the
  ordered key list holds both occurrences at their places.
\<close>

theorem duplicate_detection:
  assumes "entry_matches fmt content = xs @ (k, v1, a1) # ys @ (k, v2, a2) # zs"
    and "k \<notin> fst ` set xs" and "k \<notin> fst ` set ys" and "k \<notin> fst ` set zs"
    and "v1 \<noteq> v2"
  shows "count_list (duplicates (parse_translation_file content fmt)) k = 1
         \<and> map_option e_value (map_of (entries (parse_translation_file content fmt)) k) = Some v2
         \<and> ordered_keys (parse_translation_file content fmt)
             = map fst xs @ k # map fst ys @ k # map fst zs"
proof -
  have z: "count_list (map fst xs) k = 0" "count_list (map fst ys) k = 0"
    "count_list (map fst zs) k = 0"
    using assms(2-4) count_list_0_iff [of _ k] by auto
  have c: "count_list (map fst (entry_matches fmt content)) k = 2"
    by (simp add: assms(1) z)
  have l: "map_of (entries (parse_translation_file content fmt)) k =
           Some \<lparr>e_value = v2, e_hash = entry_hash_of a2\<rparr>"
    using parse_lookup_last [of fmt content "xs @ (k, v1, a1) # ys" k v2 a2 zs] assms(1,4)
    by simp
  have o: "ordered_keys (parse_translation_file content fmt)
             = map fst xs @ k # map fst ys @ k # map fst zs"
    by (simp add: parse_ordered_keys assms(1))
  show ?thesis
    using c l o by (simp add: parse_duplicates_count)
qed

theorem duplicate_detection_witness:
  "count_list (duplicates (parse_translation_file dup_file (Some Elements))) ''a'' = 1
   \<and> map_option e_value (map_of (entries (parse_translation_file dup_file (Some Elements))) ''a'')
       = Some ''Y''
   \<and> ordered_keys (parse_translation_file dup_file (Some Elements)) = [''a'', ''a'']"
  using duplicate_detection [OF dup_file_matches] by simp

text \<open>
  C8 (precedence among duplicates).  The value that every comparison reads is the
  lookup of the key in the entry map.  In the file with the entries \<^verbatim>\<open>a = X\<close> and then
  \<^verbatim>\<open>a = Y\<close> that lookup is not the value of the first occurrence.
\<close>

theorem first_occurrence_counterexample:
  "map_option e_value (map_of (entries (parse_translation_file dup_file (Some Elements))) ''a'')
     \<noteq> Some ''X''"
  by code_simp

text \<open>
  C8, amended.  For every parsed file and every key that occurs in it, the value used
  for all comparisons (the lookup in the entry map) is the value of the last occurrence
  of the key.
\<close>

theorem last_occurrence_wins:
  assumes "entry_matches fmt content = xs @ (k, v, a) # ys" and "k \<notin> fst ` set ys"
  shows "map_option e_value (map_of (entries (parse_translation_file content fmt)) k) = Some v"
  using parse_lookup_last [OF assms] by simp

theorem last_occurrence_wins_witness:
  "map_option e_value (map_of (entries (parse_translation_file dup_file (Some Elements))) ''a'')
     = Some ''Y''"
  using last_occurrence_wins [OF dup_file_split] by simp

section \<open>Properties of the classification\<close>

lemma classify_Inr:
  "set ks \<subseteq> fst ` set se \<Longrightarrow>
   classify_source_keys H fmt se le ks (m, s) =
     Inr (m @ missing_keys le ks, s @ stale_keys H fmt se le ks)"
proof (induction ks arbitrary: m s)
  case Nil
  then show ?case by (simp add: missing_keys_def stale_keys_def)
next
  case (Cons k ks)
  from Cons.prems have "k \<in> fst ` set se" by simp
  then have "map_of se k \<noteq> None" by (simp add: map_of_eq_None_iff)
  then obtain sd where sd: "map_of se k = Some sd" by blast
  from Cons.prems have sub: "set ks \<subseteq> fst ` set se" by simp
  show ?case
  proof (cases "map_of le k")
    case None
    then show ?thesis
      using sd Cons.IH [OF sub, of "m @ [k]" s] by (simp add: missing_keys_def stale_keys_def)
  next
    case (Some ld)
    show ?thesis
    proof (cases "fmt = Some Elements \<and> sync_is_stale H sd ld")
      case True
      then show ?thesis
        using sd Some Cons.IH [OF sub, of m "s @ [k]"]
        by (simp add: missing_keys_def stale_keys_def)
    next
      case False
      then show ?thesis
        using sd Some Cons.IH [OF sub, of m s]
        by (auto simp: missing_keys_def stale_keys_def)
    qed
  qed
qed

lemma classify_Inl:
  "\<not> set ks \<subseteq> fst ` set se \<Longrightarrow> classify_source_keys H fmt se le ks acc = Inl KeyError"
proof (induction ks arbitrary: acc)
  case Nil
  then show ?case by simp
next
  case (Cons k ks)
  show ?case
  proof (cases "map_of se k")
    case None
    then show ?thesis by simp
  next
    case (Some sd)
    then have "k \<in> fst ` set se" by (metis map_of_eq_None_iff option.distinct(1))
    with Cons.prems have "\<not> set ks \<subseteq> fst ` set se" by auto
    then show ?thesis using Some by (simp add: Cons.IH)
  qed
qed

lemma sync_language_lists:
  assumes "sync_language H fmt source content = Inr r"
  shows "lr_missing r = missing_keys (entries (parse_translation_file content fmt)) (ordered_keys source)"
    and "lr_stale r = stale_keys H fmt (entries source) (entries (parse_translation_file content fmt))
           (ordered_keys source)"
    and "set (ordered_keys source) \<subseteq> fst ` set (entries source)"
proof -
  have sub: "set (ordered_keys source) \<subseteq> fst ` set (entries source)"
  proof (rule ccontr)
    assume "\<not> ?thesis"
    from classify_Inl [OF this] show False using assms
      by (simp add: sync_language_def Let_def)
  qed
  then show "set (ordered_keys source) \<subseteq> fst ` set (entries source)" .
  note c = classify_Inr [OF sub, of H fmt _ "[]" "[]"]
  show "lr_missing r = missing_keys (entries (parse_translation_file content fmt)) (ordered_keys source)"
    using assms by (auto simp: sync_language_def Let_def c split: sum.splits prod.splits)
  show "lr_stale r = stale_keys H fmt (entries source) (entries (parse_translation_file content fmt))
           (ordered_keys source)"
    using assms by (auto simp: sync_language_def Let_def c split: sum.splits prod.splits)
qed

text \<open>
  C3 (stale classification).  In a sync of an elements-format target, a source key that
  is present in the target table is on the stale list exactly when the hash of the
  target entry differs from the fingerprint of the source value and the target value
  does not start with the untranslated prefix; a value with the prefix is never stale;
  and no key is both on the missing list (the keys that are inserted) and on the stale
  list.
\<close>

theorem stale_classification:
  assumes "sync_language get_hash (Some Elements) source content = Inr r"
    and "k \<in> set (ordered_keys source)"
    and "map_of (entries source) k = Some sd"
    and "map_of (entries (parse_translation_file content (Some Elements))) k = Some ld"
  shows "(k \<in> set (lr_stale r) \<longleftrightarrow>
            e_hash ld \<noteq> Some (get_hash (e_value sd)) \<and> \<not> prefix untranslatedPrefix (e_value ld))
         \<and> (prefix untranslatedPrefix (e_value ld) \<longrightarrow> k \<notin> set (lr_stale r))
         \<and> set (lr_missing r) \<inter> set (lr_stale r) = {}"
proof -
  note l = sync_language_lists [OF assms(1)]
  have a: "k \<in> set (lr_stale r) \<longleftrightarrow>
            e_hash ld \<noteq> Some (get_hash (e_value sd)) \<and> \<not> prefix untranslatedPrefix (e_value ld)"
    using assms(2-4) by (simp add: l stale_keys_def sync_is_stale_def)
  have b: "set (lr_missing r) \<inter> set (lr_stale r) = {}"
    by (auto simp: l stale_keys_def missing_keys_def split: option.splits)
  show ?thesis using a b by blast
qed

theorem stale_classification_witness:
  "\<exists>r. sync_language length_hash (Some Elements)
         (parse_translation_file stale_source (Some Elements)) stale_target = Inr r
       \<and> ''a'' \<in> set (lr_stale r) \<and> set (lr_missing r) \<inter> set (lr_stale r) = {}"
proof -
  define r where "r = projr (sync_language length_hash (Some Elements)
         (parse_translation_file stale_source (Some Elements)) stale_target)"
  have r: "sync_language length_hash (Some Elements)
         (parse_translation_file stale_source (Some Elements)) stale_target = Inr r"
    unfolding r_def by code_simp
  have k: "''a'' \<in> set (ordered_keys (parse_translation_file stale_source (Some Elements)))"
    by code_simp
  have s: "map_of (entries (parse_translation_file stale_source (Some Elements))) ''a''
             = Some \<lparr>e_value = ''Hello!'', e_hash = Some ''00000006''\<rparr>"
    by code_simp
  have l: "map_of (entries (parse_translation_file stale_target (Some Elements))) ''a''
             = Some \<lparr>e_value = ''Bonjour'', e_hash = Some ''00000005''\<rparr>"
    by code_simp
  have h: "length_hash ''Hello!'' = ''00000006''" by code_simp
  have p: "\<not> prefix untranslatedPrefix ''Bonjour''" by code_simp
  have "''a'' \<in> set (lr_stale r) \<and> set (lr_missing r) \<inter> set (lr_stale r) = {}"
    using stale_classification [OF r k s l] h p by auto
  with r show ?thesis by blast
qed

text \<open>
  C10 (entries without a hash).  For an elements-format target entry that has no hash
  attribute, whose value does not start with the untranslated prefix and differs from
  the source value: the chain of tests of check, status and report gives translated,
  never stale (the stale list of check, the lists whose lengths status prints, the lists
  of report), while the sync puts the key on its stale list.
\<close>

theorem hashless_entries:
  assumes "source = parse_translation_file source_content (Some Elements)"
    and "lang = parse_translation_file content (Some Elements)"
    and "map_of (entries source) k = Some sd"
    and "map_of (entries lang) k = Some ld"
    and "e_hash ld = None"
    and "\<not> prefix untranslatedPrefix (e_value ld)"
    and "e_value ld \<noteq> e_value sd"
    and "sync_language get_hash (Some Elements) source content = Inr r"
  shows "k \<notin> set (cr_stale (check_language get_hash format_only cognate (Some Elements) source lang))
       \<and> k \<notin> set (keys_with_status get_hash format_only cognate (Some Elements)
                      (entries source) (entries lang) IsStale)
       \<and> k \<in> set (keys_with_status get_hash format_only cognate (Some Elements)
                      (entries source) (entries lang) IsTranslated)
       \<and> sr_translated (status_language get_hash format_only cognate (Some Elements) source lang)
           = length (keys_with_status get_hash format_only cognate (Some Elements)
                      (entries source) (entries lang) IsTranslated)
       \<and> sr_stale (status_language get_hash format_only cognate (Some Elements) source lang)
           = length (keys_with_status get_hash format_only cognate (Some Elements)
                      (entries source) (entries lang) IsStale)
       \<and> k \<notin> set (rl_stale (report_language get_hash format_only cognate (Some Elements) source lang))
       \<and> k \<in> set (rl_translated (report_language get_hash format_only cognate (Some Elements) source lang))
       \<and> k \<in> set (lr_stale r)"
proof -
  have d: "distinct (map fst (entries source))"
    by (simp add: assms(1) parse_distinct)
  have st: "entry_status get_hash format_only cognate (Some Elements) (entries lang) k sd = IsTranslated"
    using assms(4-7) by (simp add: entry_status_def has_no_hash_def)
  have mem: "(k, sd) \<in> set (entries source)"
    using assms(3) by (rule map_of_SomeD)
  have uniq: "\<And>sd'. (k, sd') \<in> set (entries source) \<Longrightarrow> sd' = sd"
    using d assms(3) by simp
  have tr: "k \<in> set (keys_with_status get_hash format_only cognate (Some Elements)
                      (entries source) (entries lang) IsTranslated)"
    using mem st by (force simp: keys_with_status_def)
  have ns: "k \<notin> set (keys_with_status get_hash format_only cognate (Some Elements)
                      (entries source) (entries lang) IsStale)"
    using uniq st by (auto simp: keys_with_status_def)
  have ok: "k \<in> set (ordered_keys source)"
    using mem parse_keys [of source_content "Some Elements"] by (force simp: assms(1))
  have sy: "k \<in> set (lr_stale r)"
    using sync_language_lists(2) [OF assms(8)] ok assms(3-7)
    by (simp add: stale_keys_def sync_is_stale_def assms(2))
  show ?thesis
    using tr ns sy by (simp add: check_language_def status_language_def report_language_def)
qed

theorem hashless_entries_witness:
  "\<exists>r. sync_language length_hash (Some Elements)
          (parse_translation_file stale_source (Some Elements)) hashless_target = Inr r
     \<and> ''a'' \<in> set (lr_stale r)
     \<and> ''a'' \<notin> set (cr_stale (check_language length_hash (\<lambda>_. False) (\<lambda>_. False) (Some Elements)
            (parse_translation_file stale_source (Some Elements))
            (parse_translation_file hashless_target (Some Elements))))
     \<and> ''a'' \<in> set (rl_translated (report_language length_hash (\<lambda>_. False) (\<lambda>_. False) (Some Elements)
            (parse_translation_file stale_source (Some Elements))
            (parse_translation_file hashless_target (Some Elements))))"
proof -
  define r where "r = projr (sync_language length_hash (Some Elements)
         (parse_translation_file stale_source (Some Elements)) hashless_target)"
  have r: "sync_language length_hash (Some Elements)
         (parse_translation_file stale_source (Some Elements)) hashless_target = Inr r"
    unfolding r_def by code_simp
  have s: "map_of (entries (parse_translation_file stale_source (Some Elements))) ''a''
             = Some \<lparr>e_value = ''Hello!'', e_hash = Some ''00000006''\<rparr>"
    by code_simp
  have l: "map_of (entries (parse_translation_file hashless_target (Some Elements))) ''a''
             = Some \<lparr>e_value = ''Bonjour'', e_hash = None\<rparr>"
    by code_simp
  have p: "\<not> prefix untranslatedPrefix ''Bonjour''" by code_simp
  have "''a'' \<in> set (lr_stale r)
     \<and> ''a'' \<notin> set (cr_stale (check_language length_hash (\<lambda>_. False) (\<lambda>_. False) (Some Elements)
            (parse_translation_file stale_source (Some Elements))
            (parse_translation_file hashless_target (Some Elements))))
     \<and> ''a'' \<in> set (rl_translated (report_language length_hash (\<lambda>_. False) (\<lambda>_. False) (Some Elements)
            (parse_translation_file stale_source (Some Elements))
            (parse_translation_file hashless_target (Some Elements))))"
    using hashless_entries [OF refl refl s l _ _ _ r, of "\<lambda>_. False" "\<lambda>_. False"] p by simp
  with r show ?thesis by blast
qed

section \<open>Properties of the validator\<close>

lemma first_mismatch_None:
  "length xs = length ys \<Longrightarrow> first_mismatch xs ys = None \<longleftrightarrow> xs = ys"
  by (induction xs ys rule: first_mismatch.induct) auto

lemma extract_eq_mset:
  "extract_format_specifiers s = extract_format_specifiers t \<longleftrightarrow>
     mset (specifiers_in_order s) = mset (specifiers_in_order t)"
proof
  assume "extract_format_specifiers s = extract_format_specifiers t"
  then have "mset (sort (specifiers_in_order s)) = mset (sort (specifiers_in_order t))"
    by (simp add: extract_format_specifiers_def)
  then show "mset (specifiers_in_order s) = mset (specifiers_in_order t)" by simp
next
  assume "mset (specifiers_in_order s) = mset (specifiers_in_order t)"
  then show "extract_format_specifiers s = extract_format_specifiers t"
    unfolding extract_format_specifiers_def
    by (metis properties_for_sort sorted_sort mset_sort)
qed

text \<open>
  C4 (format-specifier parity).  The values \<^verbatim>\<open>%d %s\<close> and \<^verbatim>\<open>%s %d\<close> hold the same
  specifiers in a different order, and the validator reports nothing.
\<close>

theorem format_specifier_parity_counterexample:
  "specifiers_in_order ''%d %s'' \<noteq> specifiers_in_order ''%s %d''
   \<and> check_format_specifiers ''%d %s'' ''%s %d'' ''msg'' = None"
  by code_simp

text \<open>
  C4, amended.  The validator extracts the specifiers of each value and sorts them.  It
  reports a format error, carrying both sorted lists, exactly when the two sorted lists
  differ, that is when the two values do not hold the same specifiers with the same
  multiplicities; the order of the specifiers in the text does not matter.  The error
  is of the count kind exactly when the numbers of specifiers differ.
\<close>

theorem format_specifier_parity:
  "(check_format_specifiers source_value target_value key = None \<longleftrightarrow>
      mset (specifiers_in_order source_value) = mset (specifiers_in_order target_value))
   \<and> (case check_format_specifiers source_value target_value key of
         None \<Rightarrow> extract_format_specifiers source_value = extract_format_specifiers target_value
       | Some e \<Rightarrow>
           extract_format_specifiers source_value \<noteq> extract_format_specifiers target_value
           \<and> fi_key e = key
           \<and> fi_source e = extract_format_specifiers source_value
           \<and> fi_target e = extract_format_specifiers target_value
           \<and> (fi_type e = Count \<longleftrightarrow>
                length (specifiers_in_order source_value) \<noteq> length (specifiers_in_order target_value)))"
proof -
  let ?ss = "extract_format_specifiers source_value"
  let ?ts = "extract_format_specifiers target_value"
  have len: "length ?ss = length (specifiers_in_order source_value)"
    "length ?ts = length (specifiers_in_order target_value)"
    by (simp_all add: extract_format_specifiers_def)
  show ?thesis
  proof (cases "length ?ss = length ?ts")
    case False
    then have "?ss \<noteq> ?ts" by auto
    then show ?thesis
      using False len by (simp add: check_format_specifiers_def Let_def extract_eq_mset [symmetric])
  next
    case True
    show ?thesis
    proof (cases "first_mismatch ?ss ?ts")
      case None
      then have "?ss = ?ts" using first_mismatch_None [OF True] by simp
      then show ?thesis
        using True None
        by (simp add: check_format_specifiers_def Let_def extract_eq_mset [symmetric])
    next
      case (Some ab)
      then have "?ss \<noteq> ?ts" using first_mismatch_None [OF True] by auto
      then show ?thesis
        using True Some len
        by (cases ab) (simp add: check_format_specifiers_def Let_def extract_eq_mset [symmetric])
    qed
  qed
qed

lemma extract_format_specifiers_example: "extract_format_specifiers ''%d and %s and %.1f 40% success %5.2lf %hhd %%s %00d %0-5.d %lls %hhhd %Lf %5.d''
  = [''%.1f'', ''%00d'', ''%5.2lf'', ''%Lf'', ''%d'', ''%hhd'', ''%lls'', ''%s'', ''%s'']"
  by code_simp

lemma format_error_scenario: "map_option (\<lambda>e. (fi_source e, fi_target e)) (check_format_specifiers ''You earn %d coins'' ''Vous gagnez %s pieces'' ''msg'') = Some ([''%d''], [''%s''])"
  by code_simp

section \<open>Properties of the commands\<close>

lemma entry_status_missing:
  "entry_status H fo cg fmt le k sd = IsMissing \<longleftrightarrow> map_of le k = None"
  by (simp add: entry_status_def split: option.splits)

lemma missing_nonempty:
  "keys_with_status H fo cg fmt se le IsMissing \<noteq> [] \<longleftrightarrow>
     (\<exists>k \<in> fst ` set se. map_of le k = None)"
  by (force simp: keys_with_status_def entry_status_missing filter_empty_conv)

lemma orphaned_nonempty:
  "orphaned_keys se ks \<noteq> [] \<longleftrightarrow> (\<exists>k \<in> set ks. map_of se k = None)"
  by (auto simp: orphaned_keys_def filter_empty_conv)

lemma language_has_problems_iff:
  "language_has_problems (check_language H fo cg fmt source (parse_translation_file content fmt))
     \<longleftrightarrow> target_has_defect fmt source (Some content)"
proof -
  let ?lang = "parse_translation_file content fmt"
  let ?r = "check_language H fo cg fmt source ?lang"
  have m: "cr_missing ?r \<noteq> [] \<longleftrightarrow>
             (\<exists>k \<in> fst ` set (entries source). map_of (entries ?lang) k = None)"
    by (simp add: check_language_def missing_nonempty)
  have d: "cr_duplicates ?r \<noteq> [] \<longleftrightarrow> (\<exists>k. k \<in> set (duplicates ?lang))"
    by (cases "duplicates ?lang") (auto simp: check_language_def)
  have o: "cr_orphaned ?r \<noteq> [] \<longleftrightarrow>
             (\<exists>k \<in> set (ordered_keys ?lang). map_of (entries source) k = None)"
    by (simp add: check_language_def orphaned_nonempty)
  have "language_has_problems ?r \<longleftrightarrow>
          cr_missing ?r \<noteq> [] \<or> cr_duplicates ?r \<noteq> [] \<or> cr_orphaned ?r \<noteq> []"
    unfolding language_has_problems_def by blast
  then show ?thesis
    unfolding m d o target_has_defect_def by simp
qed

lemma check_languages_iff:
  "check_languages H fo cg fmt source fs p langs hp \<longleftrightarrow>
     hp \<or> (\<exists>code \<in> set langs. target_has_defect fmt source (map_of fs (get_lang_file_path p code)))"
proof (induction langs arbitrary: hp)
  case Nil
  then show ?case by simp
next
  case (Cons code langs)
  show ?case
  proof (cases "map_of fs (get_lang_file_path p code)")
    case None
    then show ?thesis by (simp add: Cons.IH target_has_defect_def)
  next
    case (Some content)
    then show ?thesis
      using language_has_problems_iff [of H fo cg fmt source content]
      by (auto simp: Cons.IH)
  qed
qed

text \<open>
  C6 (exit status of check).  In a directory of text files in which the source file is
  found and its format is detected, so that the run reaches the target languages, the
  check command exits with status 1 if and only if the file of some target language
  does not exist or some target language has a missing key, a duplicate key or an
  orphaned key; in every other such run (the targets have stale or untranslated entries
  at most) it exits with status 0.
\<close>

theorem check_exit_policy:
  assumes "detected_source fs = Some (file_prefix, source_content)"
    and "auto_detect_xml_format source_content = Some fmt"
  shows "check_sync get_hash format_only cognate fs =
     (if \<exists>code \<in> set (get_enabled_languages fs).
           target_has_defect (Some fmt) (parse_translation_file source_content (Some fmt))
             (map_of fs (get_lang_file_path file_prefix code))
      then Exit 1 else Exit 0)"
proof -
  from assms(1) have "auto_detect_file_prefix fs = Some file_prefix"
    and "map_of fs (get_source_file_path file_prefix) = Some source_content"
    by (auto simp: detected_source_def split: option.splits)
  then show ?thesis
    using assms(2) by (simp add: check_sync_def Let_def check_languages_iff)
qed

text \<open>
  The policy at two directories: a target with one stale and one untranslated entry and
  no other defect (status 0), and a target that lacks a source key (status 1).
\<close>

theorem check_exit_policy_witness:
  "detected_source pending_dir = Some (''lang'', stale_source)
   \<and> auto_detect_xml_format stale_source = Some Elements
   \<and> get_enabled_languages pending_dir = [''de'']
   \<and> cr_missing (check_language length_hash (\<lambda>_. False) (\<lambda>_. False) (Some Elements)
        (parse_translation_file stale_source (Some Elements))
        (parse_translation_file pending_target (Some Elements))) = []
   \<and> cr_stale (check_language length_hash (\<lambda>_. False) (\<lambda>_. False) (Some Elements)
        (parse_translation_file stale_source (Some Elements))
        (parse_translation_file pending_target (Some Elements))) = [''a'']
   \<and> cr_untranslated (check_language length_hash (\<lambda>_. False) (\<lambda>_. False) (Some Elements)
        (parse_translation_file stale_source (Some Elements))
        (parse_translation_file pending_target (Some Elements))) = [''b'']
   \<and> check_sync length_hash (\<lambda>_. False) (\<lambda>_. False) pending_dir = Exit 0
   \<and> detected_source incomplete_dir = Some (''lang'', stale_source)
   \<and> map_of (entries (parse_translation_file stale_target (Some Elements))) ''b'' = None
   \<and> check_sync length_hash (\<lambda>_. False) (\<lambda>_. False) incomplete_dir = Exit 1"
proof -
  let ?src = "parse_translation_file stale_source (Some Elements)"
  have d: "detected_source pending_dir = Some (''lang'', stale_source)" by code_simp
  have f: "auto_detect_xml_format stale_source = Some Elements" by code_simp
  have l: "get_enabled_languages pending_dir = [''de'']" by code_simp
  have p: "map_of pending_dir (get_lang_file_path ''lang'' ''de'') = Some pending_target"
    by code_simp
  have se: "map fst (entries ?src) = [''a'', ''b'']" by code_simp
  have te: "map_of (entries (parse_translation_file pending_target (Some Elements))) ''a'' \<noteq> None"
    "map_of (entries (parse_translation_file pending_target (Some Elements))) ''b'' \<noteq> None"
    by code_simp+
  have tk: "ordered_keys (parse_translation_file pending_target (Some Elements)) = [''a'', ''b'']"
    by code_simp
  have td: "duplicates (parse_translation_file pending_target (Some Elements)) = []"
    by code_simp
  have sl: "map_of (entries ?src) ''a'' \<noteq> None" "map_of (entries ?src) ''b'' \<noteq> None"
    by code_simp+
  have fs: "fst ` set (entries ?src) = {''a'', ''b''}"
    using se by (metis list.set_map list.simps(15) empty_set)
  have nd: "\<not> target_has_defect (Some Elements) ?src (Some pending_target)"
    using te sl by (simp add: target_has_defect_def fs tk td)
  have e0: "check_sync length_hash (\<lambda>_. False) (\<lambda>_. False) pending_dir = Exit 0"
    using check_exit_policy [OF d f, of length_hash "\<lambda>_. False" "\<lambda>_. False"] nd
    by (simp add: l p)
  have m: "cr_missing (check_language length_hash (\<lambda>_. False) (\<lambda>_. False) (Some Elements) ?src
        (parse_translation_file pending_target (Some Elements))) = []" by code_simp
  have s: "cr_stale (check_language length_hash (\<lambda>_. False) (\<lambda>_. False) (Some Elements) ?src
        (parse_translation_file pending_target (Some Elements))) = [''a'']" by code_simp
  have u: "cr_untranslated (check_language length_hash (\<lambda>_. False) (\<lambda>_. False) (Some Elements) ?src
        (parse_translation_file pending_target (Some Elements))) = [''b'']" by code_simp
  have d2: "detected_source incomplete_dir = Some (''lang'', stale_source)" by code_simp
  have l2: "get_enabled_languages incomplete_dir = [''de'']" by code_simp
  have p2: "map_of incomplete_dir (get_lang_file_path ''lang'' ''de'') = Some stale_target"
    by code_simp
  have b: "map_of (entries (parse_translation_file stale_target (Some Elements))) ''b'' = None"
    by code_simp
  have "''b'' \<in> fst ` set (entries ?src)" by (simp add: fs)
  with b have "\<exists>k \<in> fst ` set (entries ?src).
      map_of (entries (parse_translation_file stale_target (Some Elements))) k = None"
    by blast
  then have df: "target_has_defect (Some Elements) ?src (Some stale_target)"
    unfolding target_has_defect_def by simp
  have e1: "check_sync length_hash (\<lambda>_. False) (\<lambda>_. False) incomplete_dir = Exit 1"
    using check_exit_policy [OF d2 f, of length_hash "\<lambda>_. False" "\<lambda>_. False"] df
    by (simp add: l2 p2)
  show ?thesis using d f l m s u e0 d2 b e1 by simp
qed

text \<open>
  C5 (detection failure).  The source file of this directory holds no entry marker, so
  no format is detected.  The sync command exits with status 1; validate and check go
  on to the language files and exit with status 0, status and report print their blocks
  and return.
\<close>

theorem detection_failure_not_fatal:
  "auto_detect_xml_format ''<l10n></l10n>'' = None
   \<and> validate_sync undetected_dir = Exit 0
   \<and> check_sync get_hash format_only cognate undetected_dir = Exit 0
   \<and> show_status get_hash format_only cognate undetected_dir
       = (Returned, [\<lparr>sr_translated = 0, sr_stale = 0, sr_untranslated = 0, sr_missing = 0,
                      sr_orphaned = 0, sr_format_errs = 0, sr_duplicates = 0\<rparr>])
   \<and> fst (generate_report get_hash format_only cognate undetected_dir) = Returned
   \<and> fst (sync_translations get_hash undetected_dir) = Exit 1"
  by code_simp

section \<open>Scanning\<close>

lemma re_finditer_drop: "re_finditer m n s = re_finditer m 0 (drop n s)"
proof (induction s arbitrary: n)
  case Nil
  then show ?case by simp
next
  case (Cons c cs)
  then show ?case by (cases n) simp_all
qed

lemma re_sub_drop: "re_sub m f n s = re_sub m f 0 (drop n s)"
proof (induction s arbitrary: n)
  case Nil
  then show ?case by simp
next
  case (Cons c cs)
  then show ?case by (cases n) simp_all
qed

lemma re_finditer_match:
  assumes "m (x @ s) = Some (g, length x)" and "x \<noteq> []"
  shows "re_finditer m 0 (x @ s) = g # re_finditer m 0 s"
proof -
  from assms(2) obtain c cs where x: "x = c # cs" by (cases x) auto
  have "re_finditer m 0 (c # cs @ s) = g # re_finditer m (length cs) (cs @ s)"
    using assms(1) by (simp add: x)
  also have "re_finditer m (length cs) (cs @ s) = re_finditer m 0 s"
    by (subst re_finditer_drop) simp
  finally show ?thesis by (simp add: x)
qed

lemma re_sub_match:
  assumes "m (x @ s) = Some (g, length x)" and "x \<noteq> []"
  shows "re_sub m f 0 (x @ s) = f g @ re_sub m f 0 s"
proof -
  from assms(2) obtain c cs where x: "x = c # cs" by (cases x) auto
  have "re_sub m f 0 (c # cs @ s) = f g @ re_sub m f (length cs) (cs @ s)"
    using assms(1) by (simp add: x)
  also have "re_sub m f (length cs) (cs @ s) = re_sub m f 0 s"
    by (subst re_sub_drop) simp
  finally show ?thesis by (simp add: x)
qed

lemma re_search_match:
  assumes "m (x @ s) = Some (g, length x)" and "x \<noteq> []"
  shows "re_search m (x @ s) = Some (g, length x)"
proof -
  from assms(2) obtain c cs where x: "x = c # cs" by (cases x) auto
  show ?thesis using assms(1) by (simp add: x)
qed

lemma anchored_None: "anchored mk m \<Longrightarrow> \<not> prefix mk s \<Longrightarrow> m s = None"
  unfolding anchored_def by blast

lemma prefix_append_short: "prefix mk (u @ s) \<Longrightarrow> length mk \<le> length u \<Longrightarrow> prefix mk u"
  by (metis append_eq_append_conv_if prefix_def prefixI take_is_prefix prefix_order.dual_order.trans)

lemma re_finditer_quiet:
  "anchored mk m \<Longrightarrow> quiet mk u s \<Longrightarrow> re_finditer m 0 (u @ s) = re_finditer m 0 s"
  by (induction u) (simp_all add: anchored_None)

lemma re_sub_quiet:
  "anchored mk m \<Longrightarrow> quiet mk u s \<Longrightarrow> re_sub m f 0 (u @ s) = u @ re_sub m f 0 s"
  by (induction u) (simp_all add: anchored_None)

lemma re_search_quiet:
  "anchored mk m \<Longrightarrow> quiet mk u s \<Longrightarrow>
   re_search m (u @ s) = map_option (\<lambda>(g, e). (g, length u + e)) (re_search m s)"
proof (induction u)
  case Nil
  then show ?case by (simp add: option.map_ident split_def)
next
  case (Cons c cs)
  then show ?case
    by (simp add: anchored_None option.map_comp comp_def split_def)
qed

lemma re_search_quiet_end: "anchored mk m \<Longrightarrow> quiet mk u [] \<Longrightarrow> re_search m u = None"
  using re_search_quiet [of mk m u "[]"] by simp

lemma str_find_quiet:
  "quiet mk u s \<Longrightarrow> str_find mk (u @ s) = map_option (\<lambda>i. length u + i) (str_find mk s)"
proof (induction u)
  case Nil
  then show ?case by (simp add: option.map_ident)
next
  case (Cons c cs)
  then show ?case by (simp add: option.map_comp comp_def)
qed

lemma str_find_Some_split:
  "str_find mk t = Some i \<Longrightarrow>
     i \<le> length t \<and> prefix mk (drop i t) \<and> quiet mk (take i t) (drop i t)"
proof (induction t arbitrary: i)
  case Nil
  then show ?case by (simp split: if_splits)
next
  case (Cons c cs)
  show ?case
  proof (cases "prefix mk (c # cs)")
    case True
    with Cons.prems show ?thesis by simp
  next
    case False
    with Cons.prems obtain j where j: "str_find mk cs = Some j" "i = Suc j" by auto
    from Cons.IH [OF j(1)] False show ?thesis by (simp add: j(2))
  qed
qed

lemma str_find_append_Some:
  "str_find mk t = Some i \<Longrightarrow> str_find mk (t @ s) = Some i"
proof (induction t arbitrary: i)
  case Nil
  then show ?case by (cases s) (auto split: if_splits)
next
  case (Cons c cs)
  show ?case
  proof (cases "prefix mk (c # cs)")
    case True
    then have "prefix mk (c # cs @ s)" by (metis append_Cons prefix_prefix)
    with Cons.prems True show ?thesis by simp
  next
    case False
    with Cons.prems obtain j where j: "str_find mk cs = Some j" "i = Suc j" by auto
    have len: "length mk \<le> length cs"
      using str_find_Some_split [OF j(1)] by (auto dest!: prefix_length_le)
    have "\<not> prefix mk (c # cs @ s)"
    proof
      assume "prefix mk (c # cs @ s)"
      then have "prefix mk (c # cs)"
        using prefix_append_short [of mk "c # cs" s] len by simp
      with False show False by simp
    qed
    then show ?thesis using Cons.IH [OF j(1)] j(2) by simp
  qed
qed

section \<open>The patterns on well-formed entries\<close>

lemma strip_prefix_append [simp]: "strip_prefix p (p @ s) = Some s"
  by (induction p) simp_all

lemma strip_prefix_append2: "strip_prefix (p @ q) (p @ s) = strip_prefix q s"
  by (induction p) simp_all

lemma strip_prefix_Some: "strip_prefix p s = Some r \<longleftrightarrow> s = p @ r"
  by (induction p s rule: strip_prefix.induct) auto

lemma strip_prefix_prefix: "strip_prefix (p @ q) s \<noteq> None \<Longrightarrow> prefix p s"
proof -
  assume "strip_prefix (p @ q) s \<noteq> None"
  then obtain r where "strip_prefix (p @ q) s = Some r" by blast
  then have "s = p @ q @ r" by (simp add: strip_prefix_Some)
  then show ?thesis by simp
qed

lemma strip_prefix_key:
  "q \<notin> set key \<Longrightarrow> q \<notin> set k \<Longrightarrow>
   strip_prefix (key @ q # r) (k @ q # s) = (if key = k then strip_prefix r s else None)"
proof (induction key arbitrary: k)
  case Nil
  then show ?case by (cases k) auto
next
  case (Cons c key)
  then show ?case by (cases k) auto
qed

lemma takeWhile_stop: "\<forall>x\<in>set xs. P x \<Longrightarrow> \<not> P y \<Longrightarrow> takeWhile P (xs @ y # r) = xs"
  by (simp add: takeWhile_tail)

lemma takeWhile_not_quote [simp]:
  "CHR 0x22 \<notin> set k \<Longrightarrow> takeWhile not_quote (k @ CHR 0x22 # r) = k"
  by (rule takeWhile_stop) (auto simp: not_quote_def)

lemma attrs_tail_eq:
  assumes "CHR ''>'' \<notin> set a"
  shows "attrs_tail (a @ CHR ''/'' # CHR ''>'' # s) = Some (a, length a + 2)"
proof -
  have "takeWhile (\<lambda>c. c \<noteq> CHR ''>'') ((a @ [CHR ''/'']) @ CHR ''>'' # s) = a @ [CHR ''/'']"
    using assms by (intro takeWhile_stop) auto
  then have "takeWhile (\<lambda>c. c \<noteq> CHR ''>'') (a @ CHR ''/'' # CHR ''>'' # s) = a @ [CHR ''/'']"
    by simp
  then show ?thesis by (simp add: attrs_tail_def)
qed

lemma texts_tail_eq:
  assumes "list_all is_space a"
  shows "texts_tail (a @ CHR ''/'' # CHR ''>'' # s) = Some (length a + 2)"
proof -
  have "takeWhile is_space (a @ CHR ''/'' # CHR ''>'' # s) = a"
    using assms by (intro takeWhile_stop) (auto simp: list_all_iff is_space_def)
  then show ?thesis by (simp add: texts_tail_def)
qed

lemma elements_rest_eq:
  assumes "CHR 0x22 \<notin> set v" and "CHR ''>'' \<notin> set a"
  shows "elements_rest (v @ CHR 0x22 # a @ CHR ''/'' # CHR ''>'' # s)
           = Some (v, a, length v + length a + 3)"
  using assms by (simp add: elements_rest_def attrs_tail_eq)

lemma texts_rest_eq:
  assumes "CHR 0x22 \<notin> set v" and "list_all is_space a"
  shows "texts_rest (v @ CHR 0x22 # a @ CHR ''/'' # CHR ''>'' # s)
           = Some (v, length v + length a + 3)"
  using assms by (simp add: texts_rest_def texts_tail_eq)

lemma entry_text_elements:
  "entry_text (Some Elements) (k, v, a) @ s =
     ''<e k=\"'' @ k @ ''\" v=\"'' @ v @ CHR 0x22 # a @ CHR ''/'' # CHR ''>'' # s"
  by (simp add: entry_text_def)

lemma entry_text_texts:
  "fmt \<noteq> Some Elements \<Longrightarrow> entry_text fmt (k, v, a) @ s =
     ''<text name=\"'' @ k @ ''\" text=\"'' @ v @ CHR 0x22 # a @ CHR ''/'' # CHR ''>'' # s"
  by (simp add: entry_text_def)

lemma length_entry_text_elements:
  "length (entry_text (Some Elements) (k, v, a)) = length k + length v + length a + 14"
  by (simp add: entry_text_def)

lemma length_entry_text_texts:
  "fmt \<noteq> Some Elements \<Longrightarrow>
   length (entry_text fmt (k, v, a)) = length k + length v + length a + 23"
  by (simp add: entry_text_def)

lemma entry_pattern_elements_entry:
  assumes "wf_entry (Some Elements) (k, v, a)"
  shows "entry_pattern_elements (entry_text (Some Elements) (k, v, a) @ s)
           = Some ((k, v, a), length (entry_text (Some Elements) (k, v, a)))"
proof -
  have e: "elements_rest (v @ CHR 0x22 # a @ CHR ''/'' # CHR ''>'' # s)
           = Some (v, a, length v + length a + 3)"
    using assms by (intro elements_rest_eq) (auto simp: wf_entry_def)
  have k: "CHR 0x22 \<notin> set k" "k \<noteq> []" using assms by (auto simp: wf_entry_def)
  have "entry_pattern_elements
          (''<e k=\"'' @ k @ CHR 0x22 # '' v=\"'' @ v @ CHR 0x22 # a @ CHR ''/'' # CHR ''>'' # s)
        = Some ((k, v, a), length k + length v + length a + 14)"
    using k e by (simp add: entry_pattern_elements_def)
  then show ?thesis
    by (simp add: entry_text_elements length_entry_text_elements)
qed

lemma key_pattern_elements_entry:
  assumes "wf_entry (Some Elements) (k, v, a)" and "CHR 0x22 \<notin> set key"
  shows "key_pattern_elements key (entry_text (Some Elements) (k, v, a) @ s)
           = (if k = key then Some ((v, a), length (entry_text (Some Elements) (k, v, a)))
              else None)"
proof -
  have e: "elements_rest (v @ CHR 0x22 # a @ CHR ''/'' # CHR ''>'' # s)
           = Some (v, a, length v + length a + 3)"
    using assms by (intro elements_rest_eq) (auto simp: wf_entry_def)
  have k: "CHR 0x22 \<notin> set k" using assms by (auto simp: wf_entry_def)
  have "strip_prefix (''<e k=\"'' @ key @ CHR 0x22 # '' v=\"'')
          (''<e k=\"'' @ k @ CHR 0x22 # '' v=\"'' @ v @ CHR 0x22 # a @ CHR ''/'' # CHR ''>'' # s)
        = (if key = k then Some (v @ CHR 0x22 # a @ CHR ''/'' # CHR ''>'' # s) else None)"
    using strip_prefix_key [OF assms(2) k, of "'' v=\"''"
            "'' v=\"'' @ v @ CHR 0x22 # a @ CHR ''/'' # CHR ''>'' # s"]
    by (simp add: strip_prefix_append2 [of "''<e k=\"''", simplified])
  then have "key_pattern_elements key
          (''<e k=\"'' @ k @ CHR 0x22 # '' v=\"'' @ v @ CHR 0x22 # a @ CHR ''/'' # CHR ''>'' # s)
        = (if k = key then Some ((v, a), length k + length v + length a + 14) else None)"
    using e by (auto simp: key_pattern_elements_def)
  then show ?thesis
    by (simp add: entry_text_elements length_entry_text_elements)
qed

lemma entry_pattern_texts_entry:
  assumes "wf_entry fmt (k, v, a)" and "fmt \<noteq> Some Elements"
  shows "entry_pattern_texts (entry_text fmt (k, v, a) @ s)
           = Some ((k, v), length (entry_text fmt (k, v, a)))"
proof -
  have e: "texts_rest (v @ CHR 0x22 # a @ CHR ''/'' # CHR ''>'' # s)
           = Some (v, length v + length a + 3)"
    using assms by (intro texts_rest_eq) (auto simp: wf_entry_def)
  have k: "CHR 0x22 \<notin> set k" "k \<noteq> []" using assms by (auto simp: wf_entry_def)
  have "entry_pattern_texts
          (''<text name=\"'' @ k @ CHR 0x22 # '' text=\"'' @ v @ CHR 0x22 # a @ CHR ''/'' # CHR ''>'' # s)
        = Some ((k, v), length k + length v + length a + 23)"
    using k e by (simp add: entry_pattern_texts_def)
  then show ?thesis
    using assms(2) by (simp add: entry_text_texts length_entry_text_texts)
qed

lemma key_pattern_texts_entry:
  assumes "wf_entry fmt (k, v, a)" and "fmt \<noteq> Some Elements" and "CHR 0x22 \<notin> set key"
  shows "key_pattern_texts key (entry_text fmt (k, v, a) @ s)
           = (if k = key then Some (v, length (entry_text fmt (k, v, a))) else None)"
proof -
  have e: "texts_rest (v @ CHR 0x22 # a @ CHR ''/'' # CHR ''>'' # s)
           = Some (v, length v + length a + 3)"
    using assms by (intro texts_rest_eq) (auto simp: wf_entry_def)
  have k: "CHR 0x22 \<notin> set k" using assms by (auto simp: wf_entry_def)
  have "strip_prefix (''<text name=\"'' @ key @ CHR 0x22 # '' text=\"'')
          (''<text name=\"'' @ k @ CHR 0x22 # '' text=\"'' @ v @ CHR 0x22 # a @ CHR ''/'' # CHR ''>'' # s)
        = (if key = k then Some (v @ CHR 0x22 # a @ CHR ''/'' # CHR ''>'' # s) else None)"
    using strip_prefix_key [OF assms(3) k, of "'' text=\"''"
            "'' text=\"'' @ v @ CHR 0x22 # a @ CHR ''/'' # CHR ''>'' # s"]
    by (simp add: strip_prefix_append2 [of "''<text name=\"''", simplified])
  then have "key_pattern_texts key
          (''<text name=\"'' @ k @ CHR 0x22 # '' text=\"'' @ v @ CHR 0x22 # a @ CHR ''/'' # CHR ''>'' # s)
        = (if k = key then Some (v, length k + length v + length a + 23) else None)"
    using e by (auto simp: key_pattern_texts_def)
  then show ?thesis
    using assms(2) by (simp add: entry_text_texts length_entry_text_texts)
qed

lemma anchored_entry_pattern_elements: "anchored (marker (Some Elements)) entry_pattern_elements"
  unfolding anchored_def marker_def
  using strip_prefix_prefix [of "''<e k=\"''" "[]"]
  by (auto simp: entry_pattern_elements_def split: option.splits)

lemma anchored_key_pattern_elements: "anchored (marker (Some Elements)) (key_pattern_elements key)"
  unfolding anchored_def marker_def
  using strip_prefix_prefix [of "''<e k=\"''" "key @ ''\" v=\"''"]
  by (auto simp: key_pattern_elements_def split: option.splits)

lemma anchored_entry_pattern_texts:
  "fmt \<noteq> Some Elements \<Longrightarrow> anchored (marker fmt) entry_pattern_texts"
  unfolding anchored_def marker_def
  using strip_prefix_prefix [of "''<text name=\"''" "[]"]
  by (auto simp: entry_pattern_texts_def split: option.splits)

lemma anchored_key_pattern_texts:
  "fmt \<noteq> Some Elements \<Longrightarrow> anchored (marker fmt) (key_pattern_texts key)"
  unfolding anchored_def marker_def
  using strip_prefix_prefix [of "''<text name=\"''" "key @ ''\" text=\"''"]
  by (auto simp: key_pattern_texts_def split: option.splits)

section \<open>Quiet texts\<close>

lemma quiet_no_start:
  assumes "mk \<noteq> []" and "hd mk \<notin> set u"
  shows "quiet mk u s"
  using assms(2)
proof (induction u)
  case Nil
  then show ?case by simp
next
  case (Cons c cs)
  have "\<not> prefix mk (c # cs @ s)"
  proof
    assume "prefix mk (c # cs @ s)"
    then have "hd mk = c" using assms(1) by (cases mk) auto
    with Cons.prems show False by simp
  qed
  with Cons show ?case by simp
qed

lemma quiet_append: "quiet mk (u @ w) s \<longleftrightarrow> quiet mk u (w @ s) \<and> quiet mk w s"
  by (induction u) auto

lemma quiet_straddle:
  assumes "quiet mk t []" and "s = [] \<or> hd s \<notin> set (tl mk)"
  shows "quiet mk t s"
  using assms(1)
proof (induction t)
  case Nil
  then show ?case by simp
next
  case (Cons c cs)
  have "\<not> prefix mk (c # cs @ s)"
  proof
    assume p: "prefix mk (c # cs @ s)"
    from Cons.prems have np: "\<not> prefix mk (c # cs)" by simp
    from p np have "\<exists>us. mk = (c # cs) @ us \<and> prefix us s"
      using prefix_append [of mk "c # cs" s] by simp
    then obtain us where us: "mk = (c # cs) @ us" "prefix us s" by blast
    from np us(1) have "us \<noteq> []" by auto
    with us(2) have "s \<noteq> []" "hd s = hd us" by (auto simp: prefix_def)
    moreover from us(1) \<open>us \<noteq> []\<close> have "hd us \<in> set (tl mk)" by (cases us) auto
    ultimately show False using assms(2) by simp
  qed
  with Cons show ?case by simp
qed

lemma quiet_take: "quiet mk t [] \<Longrightarrow> quiet mk (take i t) (drop i t)"
  using quiet_append [of mk "take i t" "drop i t" "[]"] by simp

lemma quiet_drop: "quiet mk t [] \<Longrightarrow> quiet mk (drop i t) []"
  using quiet_append [of mk "take i t" "drop i t" "[]"] by simp

lemma quiet_shorten: "quiet mk u (w @ s) \<Longrightarrow> quiet mk u w"
proof (induction u)
  case Nil
  then show ?case by simp
next
  case (Cons c cs)
  have "\<not> prefix mk (c # cs @ w)"
  proof
    assume "prefix mk (c # cs @ w)"
    then have "prefix mk ((c # cs @ w) @ s)" using prefix_prefix by blast
    with Cons.prems show False by simp
  qed
  with Cons show ?case by simp
qed

lemma quiet_take_plain: "quiet mk t [] \<Longrightarrow> quiet mk (take i t) []"
  using quiet_take [of mk t i] quiet_shorten [of mk "take i t" "[]" "drop i t"] by simp

lemma str_find_None_quiet: "mk \<noteq> [] \<Longrightarrow> str_find mk t = None \<longleftrightarrow> quiet mk t []"
  by (induction t) (auto split: if_splits)

lemma marker_facts:
  "marker fmt \<noteq> []" "hd (marker fmt) = CHR ''<''" "CHR ''<'' \<notin> set (tl (marker fmt))"
  "CHR 0x0A \<notin> set (tl (marker fmt))"
  by (simp_all add: marker_def)

lemma closing_tag_facts:
  "closing_tag fmt \<noteq> []" "hd (closing_tag fmt) = CHR ''<''"
  "CHR ''<'' \<notin> set (tl (closing_tag fmt))" "CHR 0x0A \<notin> set (tl (closing_tag fmt))"
  by (simp_all add: closing_tag_def)

lemma not_space_lt: "\<not> is_space (CHR ''<'')"
  by (simp add: is_space_def)

lemma entry_text_shape:
  assumes "wf_entry fmt e"
  shows "\<exists>c r. entry_text fmt e = CHR ''<'' # c # r \<and> c \<noteq> CHR ''/'' \<and> CHR ''<'' \<notin> set (c # r)"
proof -
  obtain k v a where e: "e = (k, v, a)" by (cases e)
  have a: "CHR ''<'' \<notin> set a"
  proof (cases "fmt = Some Elements")
    case True
    then show ?thesis using assms by (simp add: e wf_entry_def)
  next
    case False
    then have "list_all is_space a" using assms by (simp add: e wf_entry_def)
    then show ?thesis using not_space_lt by (auto simp: list_all_iff)
  qed
  have kv: "CHR ''<'' \<notin> set k" "CHR ''<'' \<notin> set v"
    using assms by (simp_all add: e wf_entry_def)
  show ?thesis
  proof (cases "fmt = Some Elements")
    case True
    have "entry_text fmt e = CHR ''<'' # CHR ''e'' # ('' k=\"'' @ k @ ''\" v=\"'' @ v @ [CHR 0x22] @ a @ ''/>'')"
      using True by (simp add: e entry_text_def)
    moreover have "CHR ''<'' \<notin> set (CHR ''e'' # ('' k=\"'' @ k @ ''\" v=\"'' @ v @ [CHR 0x22] @ a @ ''/>''))"
      using a kv by simp
    ultimately show ?thesis by blast
  next
    case False
    have "entry_text fmt e = CHR ''<'' # CHR ''t'' # (''ext name=\"'' @ k @ ''\" text=\"'' @ v @ [CHR 0x22] @ a @ ''/>'')"
      using False by (simp add: e entry_text_def)
    moreover have "CHR ''<'' \<notin> set (CHR ''t'' # (''ext name=\"'' @ k @ ''\" text=\"'' @ v @ [CHR 0x22] @ a @ ''/>''))"
      using a kv by simp
    ultimately show ?thesis by blast
  qed
qed

lemma entry_text_nonempty: "wf_entry fmt e \<Longrightarrow> entry_text fmt e \<noteq> []"
  using entry_text_shape [of fmt e] by auto

lemma entry_text_hd: "wf_entry fmt e \<Longrightarrow> hd (entry_text fmt e @ s) = CHR ''<''"
  using entry_text_shape [of fmt e] by auto

text \<open>Inside an entry no marker starts (the start of the entry apart).\<close>

lemma entry_interior_quiet:
  assumes "wf_entry fmt e" and "mk \<noteq> []" and "hd mk = CHR ''<''"
  shows "quiet mk (tl (entry_text fmt e)) s"
proof -
  from entry_text_shape [OF assms(1)] obtain c r where
    "entry_text fmt e = CHR ''<'' # c # r" "CHR ''<'' \<notin> set (c # r)" by blast
  then show ?thesis using quiet_no_start [OF assms(2), of "c # r" s] assms(3) by simp
qed

text \<open>No closing tag starts in an entry.\<close>

lemma entry_quiet_closing:
  assumes "wf_entry fmt e"
  shows "quiet (closing_tag fmt') (entry_text fmt e) s"
proof -
  from entry_text_shape [OF assms(1)] obtain c r where
    sh: "entry_text fmt e = CHR ''<'' # c # r" "c \<noteq> CHR ''/''" "CHR ''<'' \<notin> set (c # r)" by blast
  have "quiet (closing_tag fmt') (c # r) s"
    using quiet_no_start [of "closing_tag fmt'" "c # r" s] sh(3) closing_tag_facts [of fmt']
    by simp
  moreover have "\<not> prefix (closing_tag fmt') (CHR ''<'' # c # r @ s)"
    using sh(2) by (cases "fmt' = Some Elements") (simp_all add: closing_tag_def)
  ultimately show ?thesis by (simp add: sh(1))
qed

section \<open>Scanning a document\<close>

lemma re_search_skip:
  assumes "anchored mk m" and "m (x @ s) = None" and "x \<noteq> []" and "quiet mk (tl x) s"
  shows "re_search m (x @ s) = map_option (\<lambda>(g, e). (g, length x + e)) (re_search m s)"
proof -
  from assms(3) obtain c r where x: "x = c # r" by (cases x) auto
  have "re_search m (r @ s) = map_option (\<lambda>(g, e). (g, length r + e)) (re_search m s)"
    using re_search_quiet [OF assms(1), of r s] assms(4) by (simp add: x)
  then show ?thesis
    using assms(2) by (simp add: x option.map_comp comp_def split_def)
qed

lemma re_sub_skip:
  assumes "anchored mk m" and "m (x @ s) = None" and "x \<noteq> []" and "quiet mk (tl x) s"
  shows "re_sub m f 0 (x @ s) = x @ re_sub m f 0 s"
proof -
  from assms(3) obtain c r where x: "x = c # r" by (cases x) auto
  have "re_sub m f 0 (r @ s) = r @ re_sub m f 0 s"
    using re_sub_quiet [OF assms(1), of r s] assms(4) by (simp add: x)
  then show ?thesis using assms(2) by (simp add: x)
qed

lemma wf_body_Cons:
  "wf_body fmt ((e, t) # es) \<longleftrightarrow> wf_entry fmt e \<and> plain fmt t \<and> wf_body fmt es"
  by (simp add: wf_body_def)

lemma wf_body_Nil [simp]: "wf_body fmt []"
  by (simp add: wf_body_def)

lemma body_start:
  assumes "wf_body fmt es"
  shows "body fmt es = [] \<or> hd (body fmt es) = CHR ''<''"
proof (cases es)
  case Nil
  then show ?thesis by simp
next
  case (Cons p es')
  obtain e t where p: "p = (e, t)" by (cases p)
  from assms have "wf_entry fmt e" by (simp add: Cons p wf_body_Cons)
  then have "hd (entry_text fmt e @ t @ body fmt es') = CHR ''<''"
    by (rule entry_text_hd)
  then show ?thesis by (simp add: Cons p)
qed

lemma chunk_quiet:
  assumes "plain fmt t" and "wf_body fmt es"
  shows "quiet (marker fmt) t (body fmt es)"
  using assms(1) body_start [OF assms(2)] marker_facts(3) [of fmt]
  by (auto simp: plain_def intro!: quiet_straddle [of "marker fmt" t "body fmt es"])

lemma chunk_quiet_closing:
  assumes "str_find (closing_tag fmt') t = None" and "wf_body fmt es"
  shows "quiet (closing_tag fmt') t (body fmt es)"
proof -
  have "quiet (closing_tag fmt') t []"
    using assms(1) by (simp add: str_find_None_quiet closing_tag_facts)
  then show ?thesis
    using body_start [OF assms(2)] closing_tag_facts(3) [of fmt']
    by (auto intro!: quiet_straddle [of "closing_tag fmt'" t "body fmt es"])
qed

lemma marker_elements: "marker (Some Elements) = ''<e k=\"''"
  by (simp add: marker_def)

lemma finditer_body_elements:
  "wf_body (Some Elements) es \<Longrightarrow>
   re_finditer entry_pattern_elements 0 (body (Some Elements) es) = map fst es"
proof (induction es)
  case Nil
  then show ?case by simp
next
  case (Cons p es)
  obtain k v a t where p: "p = ((k, v, a), t)" by (cases p) auto
  from Cons.prems have wf: "wf_entry (Some Elements) (k, v, a)" "plain (Some Elements) t"
    "wf_body (Some Elements) es"
    by (simp_all add: p wf_body_Cons)
  note ne = entry_text_nonempty [OF wf(1)]
  note q = chunk_quiet [OF wf(2,3)]
  have "re_finditer entry_pattern_elements 0
          (entry_text (Some Elements) (k, v, a) @ t @ body (Some Elements) es)
        = (k, v, a) # re_finditer entry_pattern_elements 0 (t @ body (Some Elements) es)"
    using re_finditer_match [of entry_pattern_elements "entry_text (Some Elements) (k, v, a)"
            "t @ body (Some Elements) es" "(k, v, a)"]
          entry_pattern_elements_entry [OF wf(1), of "t @ body (Some Elements) es"] ne
    by blast
  also have "re_finditer entry_pattern_elements 0 (t @ body (Some Elements) es)
        = re_finditer entry_pattern_elements 0 (body (Some Elements) es)"
    using re_finditer_quiet [OF anchored_entry_pattern_elements q] .
  finally show ?case
    using Cons.IH [OF wf(3)] by (simp add: p)
qed

lemma finditer_body_texts:
  "fmt \<noteq> Some Elements \<Longrightarrow> wf_body fmt es \<Longrightarrow>
   re_finditer entry_pattern_texts 0 (body fmt es) = map (\<lambda>(e, t). (fst e, fst (snd e))) es"
proof (induction es)
  case Nil
  then show ?case by simp
next
  case (Cons p es)
  obtain k v a t where p: "p = ((k, v, a), t)" by (cases p) auto
  from Cons.prems have wf: "wf_entry fmt (k, v, a)" "plain fmt t" "wf_body fmt es"
    by (simp_all add: p wf_body_Cons)
  note ne = entry_text_nonempty [OF wf(1)]
  note q = chunk_quiet [OF wf(2,3)]
  have "re_finditer entry_pattern_texts 0 (entry_text fmt (k, v, a) @ t @ body fmt es)
        = (k, v) # re_finditer entry_pattern_texts 0 (t @ body fmt es)"
    using re_finditer_match [of entry_pattern_texts "entry_text fmt (k, v, a)"
            "t @ body fmt es" "(k, v)"]
          entry_pattern_texts_entry [OF wf(1) Cons.prems(1), of "t @ body fmt es"] ne
    by blast
  also have "re_finditer entry_pattern_texts 0 (t @ body fmt es)
        = re_finditer entry_pattern_texts 0 (body fmt es)"
    using re_finditer_quiet [OF anchored_entry_pattern_texts [OF Cons.prems(1)] q] .
  finally show ?case
    using Cons.IH [OF Cons.prems(1) wf(3)] by (simp add: p)
qed

lemma entry_matches_body:
  assumes "wf_body fmt es"
  shows "entry_matches fmt (body fmt es) = doc_matches fmt es"
proof (cases "fmt = Some Elements")
  case True
  have "map fst es = map (\<lambda>(e, t). read_entry (Some Elements) e) es"
    by (rule map_cong) (auto simp: read_entry_def)
  then show ?thesis
    using finditer_body_elements [of es] assms True
    by (simp add: entry_matches_def doc_matches_def)
next
  case False
  have "map (\<lambda>(k, v). (k, v, [])) (map (\<lambda>(e, t). (fst e, fst (snd e))) es)
          = map (\<lambda>(e, t). read_entry fmt e) es"
    using False by (auto simp: read_entry_def)
  then show ?thesis
    using finditer_body_texts [OF False assms] False
    by (simp add: entry_matches_def doc_matches_def)
qed

lemma finditer_chunk_elements:
  assumes "plain (Some Elements) t" and "wf_body (Some Elements) es"
  shows "re_finditer entry_pattern_elements 0 (t @ body (Some Elements) es) = map fst es"
  using re_finditer_quiet [OF anchored_entry_pattern_elements chunk_quiet [OF assms]]
        finditer_body_elements [OF assms(2)] by simp

lemma finditer_chunk_texts:
  assumes "fmt \<noteq> Some Elements" and "plain fmt t" and "wf_body fmt es"
  shows "re_finditer entry_pattern_texts 0 (t @ body fmt es)
           = map (\<lambda>(e, t). (fst e, fst (snd e))) es"
  using re_finditer_quiet [OF anchored_entry_pattern_texts [OF assms(1)] chunk_quiet [OF assms(2,3)]]
        finditer_body_texts [OF assms(1,3)] by simp

lemma entry_matches_chunk:
  assumes "plain fmt t" and "wf_body fmt es"
  shows "entry_matches fmt (t @ body fmt es) = doc_matches fmt es"
proof -
  have "entry_matches fmt (t @ body fmt es) = entry_matches fmt (body fmt es)"
  proof (cases "fmt = Some Elements")
    case True
    have "re_finditer entry_pattern_elements 0 (t @ body (Some Elements) es)
            = re_finditer entry_pattern_elements 0 (body (Some Elements) es)"
      using finditer_chunk_elements [of t es] finditer_body_elements [of es] assms
      unfolding True by simp
    then show ?thesis unfolding True entry_matches_def by simp
  next
    case False
    have "re_finditer entry_pattern_texts 0 (t @ body fmt es)
            = re_finditer entry_pattern_texts 0 (body fmt es)"
      using finditer_chunk_texts [OF False assms] finditer_body_texts [OF False assms(2)]
      by simp
    then show ?thesis using False unfolding entry_matches_def by simp
  qed
  then show ?thesis by (simp add: entry_matches_body [OF assms(2)])
qed

lemma entry_matches_render:
  "wf_doc fmt d \<Longrightarrow> entry_matches fmt (render fmt d) = doc_matches fmt (snd d)"
  using entry_matches_chunk [of fmt "fst d" "snd d"] by (simp add: wf_doc_def render_def)

section \<open>Searching and rewriting a document\<close>

lemma off_body_None:
  "off_body fmt P es = None \<longleftrightarrow> (\<forall>(e, t) \<in> set es. P e t = None)"
  by (induction es) (auto split: option.splits)

lemma off_after_key_None:
  "off_body fmt (after_key key) es = None \<longleftrightarrow> key \<notin> set (doc_keys es)"
  by (induction es) (auto simp: after_key_def doc_keys_def split: option.splits)

lemma wf_body_entry:
  "wf_body fmt es \<Longrightarrow> (e, t) \<in> set es \<Longrightarrow> wf_entry fmt e \<and> plain fmt t"
  by (auto simp: wf_body_def list_all_iff)

lemma wf_body_keys:
  assumes "wf_body fmt es" and "key \<in> set (doc_keys es)"
  shows "key \<noteq> [] \<and> CHR 0x22 \<notin> set key \<and> CHR ''<'' \<notin> set key"
proof -
  from assms(2) obtain v a t where "((key, v, a), t) \<in> set es"
    by (auto simp: doc_keys_def)
  then have "wf_entry fmt (key, v, a)" using wf_body_entry [OF assms(1)] by blast
  then show ?thesis by (simp add: wf_entry_def)
qed

lemma search_body_elements:
  assumes "CHR 0x22 \<notin> set key"
  shows "wf_body (Some Elements) es \<Longrightarrow>
   map_option snd (re_search (key_pattern_elements key) (body (Some Elements) es))
     = off_body (Some Elements) (after_key key) es"
proof (induction es)
  case Nil
  then show ?case by simp
next
  case (Cons p es)
  obtain k v a t where p: "p = ((k, v, a), t)" by (cases p) auto
  from Cons.prems have wf: "wf_entry (Some Elements) (k, v, a)" "plain (Some Elements) t"
    "wf_body (Some Elements) es"
    by (simp_all add: p wf_body_Cons)
  let ?x = "entry_text (Some Elements) (k, v, a)"
  let ?m = "key_pattern_elements key"
  note ne = entry_text_nonempty [OF wf(1)]
  note an = anchored_key_pattern_elements [of key]
  note kp = key_pattern_elements_entry [OF wf(1) assms, of "t @ body (Some Elements) es"]
  show ?case
  proof (cases "k = key")
    case True
    have "re_search ?m (?x @ t @ body (Some Elements) es) = Some ((v, a), length ?x)"
      using re_search_match [of ?m ?x "t @ body (Some Elements) es" "(v, a)"] kp True ne
      by simp
    then show ?thesis using True by (simp add: p after_key_def)
  next
    case False
    have s1: "re_search ?m (?x @ t @ body (Some Elements) es)
            = map_option (\<lambda>(g, e). (g, length ?x + e)) (re_search ?m (t @ body (Some Elements) es))"
      using re_search_skip [OF an _ ne entry_interior_quiet [OF wf(1) marker_facts(1,2)],
              of "t @ body (Some Elements) es"] kp False
      by simp
    have s2: "re_search ?m (t @ body (Some Elements) es)
            = map_option (\<lambda>(g, e). (g, length t + e)) (re_search ?m (body (Some Elements) es))"
      by (rule re_search_quiet [OF an chunk_quiet [OF wf(2,3)]])
    show ?thesis
      using False
      by (simp add: p s1 s2 Cons.IH [OF wf(3), symmetric] after_key_def [of key "(k, v, a)"]
            option.map_comp comp_def split_def add.assoc)
  qed
qed

lemma search_body_texts:
  assumes "CHR 0x22 \<notin> set key" and "fmt \<noteq> Some Elements"
  shows "wf_body fmt es \<Longrightarrow>
   map_option snd (re_search (key_pattern_texts key) (body fmt es))
     = off_body fmt (after_key key) es"
proof (induction es)
  case Nil
  then show ?case by simp
next
  case (Cons p es)
  obtain k v a t where p: "p = ((k, v, a), t)" by (cases p) auto
  from Cons.prems have wf: "wf_entry fmt (k, v, a)" "plain fmt t" "wf_body fmt es"
    by (simp_all add: p wf_body_Cons)
  let ?x = "entry_text fmt (k, v, a)"
  let ?m = "key_pattern_texts key"
  note ne = entry_text_nonempty [OF wf(1)]
  note an = anchored_key_pattern_texts [OF assms(2), of key]
  note kp = key_pattern_texts_entry [OF wf(1) assms(2,1), of "t @ body fmt es"]
  show ?case
  proof (cases "k = key")
    case True
    have "re_search ?m (?x @ t @ body fmt es) = Some (v, length ?x)"
      using re_search_match [of ?m ?x "t @ body fmt es" v] kp True ne
      by simp
    then show ?thesis using True by (simp add: p after_key_def)
  next
    case False
    have s1: "re_search ?m (?x @ t @ body fmt es)
            = map_option (\<lambda>(g, e). (g, length ?x + e)) (re_search ?m (t @ body fmt es))"
      using re_search_skip [OF an _ ne entry_interior_quiet [OF wf(1) marker_facts(1,2)],
              of "t @ body fmt es"] kp False
      by simp
    have s2: "re_search ?m (t @ body fmt es)
            = map_option (\<lambda>(g, e). (g, length t + e)) (re_search ?m (body fmt es))"
      by (rule re_search_quiet [OF an chunk_quiet [OF wf(2,3)]])
    show ?thesis
      using False
      by (simp add: p s1 s2 Cons.IH [OF wf(3), symmetric] after_key_def [of key "(k, v, a)"]
            option.map_comp comp_def split_def add.assoc)
  qed
qed

lemma key_search_body:
  assumes "CHR 0x22 \<notin> set key" and "wf_body fmt es"
  shows "key_search_end fmt key (body fmt es) = off_body fmt (after_key key) es"
proof (cases "fmt = Some Elements")
  case True
  show ?thesis
    using search_body_elements [OF assms(1), of es] assms(2)
    unfolding True key_search_end_def by simp
next
  case False
  show ?thesis
    using search_body_texts [OF assms(1) False assms(2)] False
    unfolding key_search_end_def by simp
qed

lemma key_search_chunk:
  assumes "CHR 0x22 \<notin> set key" and "plain fmt t" and "wf_body fmt es"
  shows "key_search_end fmt key (t @ body fmt es)
           = map_option (\<lambda>n. length t + n) (off_body fmt (after_key key) es)"
proof (cases "fmt = Some Elements")
  case True
  have "re_search (key_pattern_elements key) (t @ body fmt es)
          = map_option (\<lambda>(g, e). (g, length t + e))
              (re_search (key_pattern_elements key) (body fmt es))"
    using re_search_quiet [OF anchored_key_pattern_elements [of key]] chunk_quiet [OF assms(2,3)]
    unfolding True by blast
  moreover have "off_body fmt (after_key key) es
          = map_option snd (re_search (key_pattern_elements key) (body fmt es))"
    using key_search_body [OF assms(1,3)] True by (simp add: key_search_end_def)
  ultimately show ?thesis
    using True by (simp add: key_search_end_def option.map_comp comp_def split_def)
next
  case False
  have "re_search (key_pattern_texts key) (t @ body fmt es)
          = map_option (\<lambda>(g, e). (g, length t + e))
              (re_search (key_pattern_texts key) (body fmt es))"
    by (rule re_search_quiet [OF anchored_key_pattern_texts [OF False] chunk_quiet [OF assms(2,3)]])
  moreover have "off_body fmt (after_key key) es
          = map_option snd (re_search (key_pattern_texts key) (body fmt es))"
    using key_search_body [OF assms(1,3)] False by (simp add: key_search_end_def)
  ultimately show ?thesis
    using False by (simp add: key_search_end_def option.map_comp comp_def split_def)
qed

section \<open>Closing tags and insertion in a document\<close>

lemma closing_body:
  "wf_body fmt es \<Longrightarrow>
   str_find (closing_tag fmt') (body fmt es) = off_body fmt (at_closing fmt') es"
proof (induction es)
  case Nil
  then show ?case by (simp add: closing_tag_facts)
next
  case (Cons p es)
  obtain e t where p: "p = (e, t)" by (cases p)
  from Cons.prems have wf: "wf_entry fmt e" "plain fmt t" "wf_body fmt es"
    by (simp_all add: p wf_body_Cons)
  let ?tag = "closing_tag fmt'"
  have s1: "str_find ?tag (entry_text fmt e @ t @ body fmt es)
          = map_option (\<lambda>i. length (entry_text fmt e) + i) (str_find ?tag (t @ body fmt es))"
    by (rule str_find_quiet [OF entry_quiet_closing [OF wf(1)]])
  show ?case
  proof (cases "str_find ?tag t")
    case None
    have "str_find ?tag (t @ body fmt es)
          = map_option (\<lambda>i. length t + i) (str_find ?tag (body fmt es))"
      by (rule str_find_quiet [OF chunk_quiet_closing [OF None wf(3)]])
    moreover have "\<And>a b. (\<lambda>x. a + (b + x)) = (+) (a + b :: nat)" by auto
    ultimately show ?thesis
      using None Cons.IH [OF wf(3)]
      by (simp add: p s1 at_closing_def option.map_comp comp_def)
  next
    case (Some i)
    have "str_find ?tag (t @ body fmt es) = Some i"
      by (rule str_find_append_Some [OF Some])
    then show ?thesis using Some by (simp add: p s1 at_closing_def)
  qed
qed

lemma closing_chunk:
  assumes "wf_body fmt es"
  shows "str_find (closing_tag fmt') (t @ body fmt es)
           = (case str_find (closing_tag fmt') t of
                Some i \<Rightarrow> Some i
              | None \<Rightarrow> map_option (\<lambda>n. length t + n) (off_body fmt (at_closing fmt') es))"
proof (cases "str_find (closing_tag fmt') t")
  case None
  have "str_find (closing_tag fmt') (t @ body fmt es)
          = map_option (\<lambda>i. length t + i) (str_find (closing_tag fmt') (body fmt es))"
    by (rule str_find_quiet [OF chunk_quiet_closing [OF None assms]])
  then show ?thesis using None by (simp add: closing_body [OF assms])
next
  case (Some i)
  then show ?thesis using str_find_append_Some [OF Some, of "body fmt es"] by simp
qed

lemma bounded_after_key: "bounded_pick (after_key key)"
  by (simp add: bounded_pick_def after_key_def)

lemma bounded_at_closing: "bounded_pick (at_closing fmt)"
  using str_find_Some_split by (auto simp: bounded_pick_def at_closing_def)

lemma splice_body:
  assumes "bounded_pick P"
  shows "off_body fmt P es = Some n \<Longrightarrow>
    take n (body fmt es) @ new_line @ entry_text fmt new @ drop n (body fmt es)
      = body fmt (ins_body P new es)"
proof (induction es arbitrary: n)
  case Nil
  then show ?case by simp
next
  case (Cons p es)
  obtain e t where p: "p = (e, t)" by (cases p)
  show ?case
  proof (cases "P e t")
    case (Some i)
    then have "i \<le> length t" using assms unfolding bounded_pick_def by blast
    moreover have "n = length (entry_text fmt e) + i" using Cons.prems Some by (simp add: p)
    ultimately show ?thesis using Some by (simp add: p)
  next
    case None
    then obtain n' where n': "off_body fmt P es = Some n'"
      "n = length (entry_text fmt e) + length t + n'"
      using Cons.prems by (auto simp: p)
    show ?thesis using Cons.IH [OF n'(1)] None by (simp add: p n'(2))
  qed
qed

lemma plain_drop: "plain fmt t \<Longrightarrow> plain fmt (drop i t)"
  by (simp add: plain_def quiet_drop)

lemma plain_new_line: "plain fmt new_line"
  unfolding plain_def
  by (rule quiet_no_start) (simp_all add: marker_facts new_line_def)

lemma plain_take_new_line:
  assumes "plain fmt t"
  shows "plain fmt (take i t @ new_line)"
proof -
  have "quiet (marker fmt) (take i t) []"
    using assms by (simp add: plain_def quiet_take_plain)
  then have "quiet (marker fmt) (take i t) new_line"
    using marker_facts(4) [of fmt]
    by (auto simp: new_line_def intro!: quiet_straddle [of "marker fmt" "take i t" "[CHR 0x0A, CHR 0x09, CHR 0x09]"])
  then show ?thesis
    using plain_new_line [of fmt] quiet_append [of "marker fmt" "take i t" new_line "[]"]
    by (simp add: plain_def)
qed

lemma wf_ins_body:
  assumes "wf_entry fmt new"
  shows "wf_body fmt es \<Longrightarrow> wf_body fmt (ins_body P new es)"
proof (induction es)
  case Nil
  then show ?case by simp
next
  case (Cons p es)
  obtain e t where p: "p = (e, t)" by (cases p)
  from Cons.prems have wf: "wf_entry fmt e" "plain fmt t" "wf_body fmt es"
    by (simp_all add: p wf_body_Cons)
  show ?case
  proof (cases "P e t")
    case None
    then show ?thesis using wf Cons.IH by (simp add: p wf_body_Cons)
  next
    case (Some i)
    then show ?thesis
      using wf assms plain_take_new_line [OF wf(2), of i] plain_drop [OF wf(2), of i]
      by (simp add: p wf_body_Cons)
  qed
qed

lemma ins_body_None: "off_body fmt P es = None \<Longrightarrow> ins_body P new es = es"
  by (induction es) (auto split: option.splits)

lemma keys_ins_body:
  "off_body fmt P es = Some n \<Longrightarrow>
   set (doc_keys (ins_body P new es)) = insert (fst new) (set (doc_keys es))"
proof (induction es arbitrary: n)
  case Nil
  then show ?case by simp
next
  case (Cons p es)
  obtain e t where p: "p = (e, t)" by (cases p)
  show ?case
  proof (cases "P e t")
    case None
    then obtain n' where "off_body fmt P es = Some n'" using Cons.prems by (auto simp: p)
    from Cons.IH [OF this] None show ?thesis by (auto simp: p doc_keys_def)
  next
    case (Some i)
    then show ?thesis by (auto simp: p doc_keys_def)
  qed
qed

section \<open>The hash update in a document\<close>

lemma ws_eh_pattern_hash:
  assumes "CHR 0x22 \<notin> set sh"
  shows "ws_eh_pattern ('' eh=\"'' @ sh @ CHR 0x22 # r) = Some (sh, 6 + length sh)"
proof -
  have "takeWhile is_space ('' eh=\"'' @ sh @ CHR 0x22 # r) = '' ''"
    by (simp add: is_space_def)
  moreover have "eh_pattern (''eh=\"'' @ sh @ CHR 0x22 # r) = Some (sh, 4 + length sh + 1)"
    using assms by (simp add: eh_pattern_def)
  ultimately show ?thesis by (simp add: ws_eh_pattern_def)
qed

lemma clean_attrs_hash:
  assumes "CHR 0x22 \<notin> set sh"
  shows "re_sub ws_eh_pattern (\<lambda>_. []) 0 ('' eh=\"'' @ sh @ CHR 0x22 # r)
           = re_sub ws_eh_pattern (\<lambda>_. []) 0 r"
proof -
  have "ws_eh_pattern (('' eh=\"'' @ sh @ [CHR 0x22]) @ r)
          = Some (sh, length ('' eh=\"'' @ sh @ [CHR 0x22]))"
    using ws_eh_pattern_hash [OF assms, of r] by simp
  then show ?thesis
    using re_sub_match [where m = ws_eh_pattern and x = "'' eh=\"'' @ sh @ [CHR 0x22]"
        and s = r and g = sh and f = "\<lambda>_. []"]
    by simp
qed

lemma has_format_tag_hash_attrs:
  assumes "CHR 0x22 \<notin> set sh"
  shows "has_format_tag (hash_attrs sh a) = has_format_tag a"
proof (cases "has_format_tag a")
  case True
  have "re_sub ws_eh_pattern (\<lambda>_. []) 0 '' tag=\"format\"'' = '' tag=\"format\"''"
    by code_simp
  moreover have "str_contains ''tag=\"format\"'' '' tag=\"format\"''"
    by code_simp
  ultimately show ?thesis
    using True clean_attrs_hash [OF assms, of "'' tag=\"format\"''"]
    by (simp add: hash_attrs_def has_format_tag_def)
next
  case False
  have "re_sub ws_eh_pattern (\<lambda>_. []) 0 '' '' = '' ''"
    by code_simp
  moreover have "\<not> str_contains ''tag=\"format\"'' '' ''"
    by code_simp
  ultimately show ?thesis
    using False clean_attrs_hash [OF assms, of "'' ''"]
    by (simp add: hash_attrs_def has_format_tag_def)
qed

lemma hash_attrs_idem:
  "CHR 0x22 \<notin> set sh \<Longrightarrow> hash_attrs sh (hash_attrs sh a) = hash_attrs sh a"
  using has_format_tag_hash_attrs [of sh a] by (simp add: hash_attrs_def [of sh])

lemma rehash_idem:
  "CHR 0x22 \<notin> set sh \<Longrightarrow> rehash key sh (rehash key sh e) = rehash key sh e"
  by (cases e) (simp add: rehash_def hash_attrs_idem)

lemma entry_hash_of_start:
  assumes "CHR 0x22 \<notin> set sh"
  shows "entry_hash_of ('' eh=\"'' @ sh @ CHR 0x22 # r) = Some sh"
proof -
  have "eh_pattern ('' eh=\"'' @ sh @ CHR 0x22 # r) = None"
    by (simp add: eh_pattern_def)
  moreover have "eh_pattern (''eh=\"'' @ sh @ CHR 0x22 # r) = Some (sh, 4 + length sh + 1)"
    using assms by (simp add: eh_pattern_def)
  ultimately show ?thesis by (simp add: entry_hash_of_def)
qed

lemma entry_hash_of_hash_attrs:
  "CHR 0x22 \<notin> set sh \<Longrightarrow> entry_hash_of (hash_attrs sh a) = Some sh"
  using entry_hash_of_start [of sh "'' tag=\"format\"''"] entry_hash_of_start [of sh "'' ''"]
  by (simp add: hash_attrs_def)

lemma replacer_entry_text:
  "replacer key sh (v, a) = entry_text (Some Elements) (key, v, hash_attrs sh a)"
  by (simp add: replacer_def entry_text_def hash_attrs_def has_format_tag_def Let_def)

lemma rehash_apply:
  "rehash key sh (k, v, a) = (if k = key then (k, v, hash_attrs sh a) else (k, v, a))"
  by (simp add: rehash_def)

lemma rehash_key [simp]: "fst (rehash key sh e) = fst e"
  by (cases e) (simp add: rehash_def)

lemma wf_hash_attrs:
  "CHR ''<'' \<notin> set sh \<Longrightarrow> CHR ''>'' \<notin> set sh \<Longrightarrow>
   CHR ''>'' \<notin> set (hash_attrs sh a) \<and> CHR ''<'' \<notin> set (hash_attrs sh a)"
  by (simp add: hash_attrs_def)

lemma wf_rehash:
  assumes "wf_entry (Some Elements) e" and "CHR ''<'' \<notin> set sh" and "CHR ''>'' \<notin> set sh"
  shows "wf_entry (Some Elements) (rehash key sh e)"
proof -
  obtain k v a where e: "e = (k, v, a)" by (cases e)
  show ?thesis
    using assms(1) wf_hash_attrs [OF assms(2,3), of a]
    by (auto simp: e rehash_def wf_entry_def)
qed

lemma doc_keys_map_entries:
  "(\<And>e. fst (f e) = fst e) \<Longrightarrow> doc_keys (map_entries f es) = doc_keys es"
  by (induction es) (auto simp: doc_keys_def map_entries_def)

lemma wf_body_map_entries:
  "(\<And>e. wf_entry fmt e \<Longrightarrow> wf_entry fmt (f e)) \<Longrightarrow> wf_body fmt es \<Longrightarrow>
   wf_body fmt (map_entries f es)"
  by (induction es) (auto simp: wf_body_Cons map_entries_def)

lemma map_entries_Cons:
  "map_entries f ((e, t) # es) = (f e, t) # map_entries f es"
  by (simp add: map_entries_def)

lemma map_entries_Nil [simp]: "map_entries f [] = []"
  by (simp add: map_entries_def)

lemma sub_body:
  assumes "CHR 0x22 \<notin> set key"
  shows "wf_body (Some Elements) es \<Longrightarrow>
    sub_entry_hash key sh (body (Some Elements) es)
      = body (Some Elements) (map_entries (rehash key sh) es)"
proof (induction es)
  case Nil
  then show ?case by (simp add: sub_entry_hash_def)
next
  case (Cons p es)
  obtain k v a t where p: "p = ((k, v, a), t)" by (cases p) auto
  let ?F = "Some Elements"
  let ?x = "entry_text ?F (k, v, a)"
  let ?m = "key_pattern_elements key"
  let ?f = "replacer key sh"
  from Cons.prems have wf: "wf_entry ?F (k, v, a)" "plain ?F t" "wf_body ?F es"
    by (simp_all add: p wf_body_Cons)
  have ne: "?x \<noteq> []" by (rule entry_text_nonempty [OF wf(1)])
  have t: "re_sub ?m ?f 0 (t @ body ?F es) = t @ re_sub ?m ?f 0 (body ?F es)"
    by (rule re_sub_quiet [OF anchored_key_pattern_elements chunk_quiet [OF wf(2,3)]])
  have ih: "re_sub ?m ?f 0 (body ?F es) = body ?F (map_entries (rehash key sh) es)"
    using Cons.IH [OF wf(3)] by (simp add: sub_entry_hash_def)
  note kp = key_pattern_elements_entry [OF wf(1) assms, of "t @ body ?F es"]
  show ?case
  proof (cases "k = key")
    case True
    with kp have "?m (?x @ t @ body ?F es) = Some ((v, a), length ?x)" by simp
    then have "re_sub ?m ?f 0 (?x @ t @ body ?F es) = ?f (v, a) @ re_sub ?m ?f 0 (t @ body ?F es)"
      using ne re_sub_match [where m = ?m and x = ?x and s = "t @ body ?F es" and g = "(v, a)"
          and f = ?f]
      by blast
    then show ?thesis
      using True t ih
      by (simp add: p sub_entry_hash_def map_entries_Cons rehash_apply replacer_entry_text)
  next
    case False
    with kp have n: "?m (?x @ t @ body ?F es) = None" by simp
    have q: "quiet (marker ?F) (tl ?x) (t @ body ?F es)"
      by (rule entry_interior_quiet [OF wf(1)]) (simp_all add: marker_facts)
    have "re_sub ?m ?f 0 (?x @ t @ body ?F es) = ?x @ re_sub ?m ?f 0 (t @ body ?F es)"
      by (rule re_sub_skip [OF anchored_key_pattern_elements n ne q])
    then show ?thesis
      using False t ih
      by (simp add: p sub_entry_hash_def map_entries_Cons rehash_apply)
  qed
qed

lemma sub_render:
  assumes "CHR 0x22 \<notin> set key" and "wf_doc (Some Elements) d"
  shows "sub_entry_hash key sh (render (Some Elements) d)
           = render (Some Elements) (fst d, map_entries (rehash key sh) (snd d))"
proof -
  let ?F = "Some Elements"
  from assms(2) have wf: "plain ?F (fst d)" "wf_body ?F (snd d)" by (simp_all add: wf_doc_def)
  have "re_sub (key_pattern_elements key) (replacer key sh) 0 (fst d @ body ?F (snd d))
          = fst d @ re_sub (key_pattern_elements key) (replacer key sh) 0 (body ?F (snd d))"
    by (rule re_sub_quiet [OF anchored_key_pattern_elements chunk_quiet [OF wf]])
  then show ?thesis
    using sub_body [OF assms(1) wf(2), of sh] by (simp add: render_def sub_entry_hash_def)
qed

section \<open>The insert position in a document\<close>

lemma set_str_replace_char: "set (str_replace_char c r s) \<subseteq> (set s - {c}) \<union> set r"
  by (induction s) (auto simp: str_replace_char_def)

lemma str_replace_char_removes: "c \<notin> set r \<Longrightarrow> c \<notin> set (str_replace_char c r s)"
  using set_str_replace_char [of c r s] by auto

lemma str_replace_char_keeps:
  "x \<notin> set s \<Longrightarrow> x \<notin> set r \<Longrightarrow> x \<notin> set (str_replace_char c r s)"
  using set_str_replace_char [of c r s] by auto

lemma escape_xml_clean:
  "CHR 0x22 \<notin> set (escape_xml s)" "CHR ''<'' \<notin> set (escape_xml s)"
  "CHR ''>'' \<notin> set (escape_xml s)"
proof -
  let ?a = "str_replace_char (CHR ''&'') ''&amp;'' s"
  let ?b = "str_replace_char (CHR ''<'') ''&lt;'' ?a"
  let ?c = "str_replace_char (CHR ''>'') ''&gt;'' ?b"
  have e: "escape_xml s = str_replace_char (CHR 0x22) ''&quot;'' ?c"
    by (simp add: escape_xml_def)
  show "CHR 0x22 \<notin> set (escape_xml s)"
    unfolding e by (rule str_replace_char_removes) simp
  have b: "CHR ''<'' \<notin> set ?b"
    by (rule str_replace_char_removes) simp
  have "CHR ''<'' \<notin> set ?c"
    by (rule str_replace_char_keeps [OF b]) simp
  then show "CHR ''<'' \<notin> set (escape_xml s)"
    unfolding e by (rule str_replace_char_keeps) simp
  have "CHR ''>'' \<notin> set ?c"
    by (rule str_replace_char_removes) simp
  then show "CHR ''>'' \<notin> set (escape_xml s)"
    unfolding e by (rule str_replace_char_keeps) simp
qed

lemma str_replace_char_append:
  "str_replace_char c r (a @ b) = str_replace_char c r a @ str_replace_char c r b"
  by (simp add: str_replace_char_def)

lemma escape_xml_append: "escape_xml (a @ b) = escape_xml a @ escape_xml b"
  by (simp add: escape_xml_def str_replace_char_append)

lemma escape_xml_prefix: "escape_xml (untranslatedPrefix @ v) = untranslatedPrefix @ escape_xml v"
  by (simp add: escape_xml_append) (simp add: escape_xml_def str_replace_char_def untranslatedPrefix_def)

lemma new_entry_text_eq:
  "new_entry_text H fmt key sd = new_line @ entry_text fmt (new_entry H fmt key sd)"
  by (simp add: new_entry_text_def new_line_def format_entry_def entry_text_def new_entry_def)

lemma new_entry_key [simp]: "fst (new_entry H fmt key sd) = key"
  by (simp add: new_entry_def)

lemma wf_new_entry:
  assumes "good_key key" and "good_hash H"
  shows "wf_entry fmt (new_entry H fmt key sd)"
  using assms escape_xml_clean [of "untranslatedPrefix @ e_value sd"]
  by (simp add: wf_entry_def new_entry_def good_key_def good_hash_def)

lemma find_predecessor_doc:
  assumes "wf_doc fmt d"
  shows "find_predecessor_end fmt (render fmt d) (set (doc_keys (snd d))) ps
           = (case find (\<lambda>p. p \<in> set (doc_keys (snd d))) ps of
                Some p \<Rightarrow> map_option (\<lambda>n. length (fst d) + n)
                            (off_body fmt (after_key p) (snd d))
              | None \<Rightarrow> None)"
proof (induction ps)
  case Nil
  then show ?case by simp
next
  case (Cons p ps)
  from assms have wf: "plain fmt (fst d)" "wf_body fmt (snd d)" by (simp_all add: wf_doc_def)
  show ?case
  proof (cases "p \<in> set (doc_keys (snd d))")
    case False
    then show ?thesis using Cons.IH by simp
  next
    case True
    then have q: "CHR 0x22 \<notin> set p" using wf_body_keys [OF wf(2)] by blast
    from True obtain n where n: "off_body fmt (after_key p) (snd d) = Some n"
      using off_after_key_None [of fmt p "snd d"] by auto
    show ?thesis
      using True n key_search_chunk [OF q wf] by (simp add: render_def)
  qed
qed

lemma find_insert_position_doc:
  assumes "wf_doc fmt d" and "key \<in> set en"
  shows "find_insert_position (render fmt d) key en (set (doc_keys (snd d))) fmt
           = Inr (ins_pos fmt en key d)"
proof -
  from assms have wf: "plain fmt (fst d)" "wf_body fmt (snd d)" by (simp_all add: wf_doc_def)
  note c = closing_chunk [OF wf(2), of fmt "fst d"]
  show ?thesis
  proof (cases "nearest_predecessor en key d")
    case None
    then show ?thesis
      using assms(2) find_predecessor_doc [OF assms(1), of "predecessors en key"] c
      by (simp add: find_insert_position_def ins_pos_def nearest_predecessor_def
            predecessors_def render_def)
  next
    case (Some p)
    then have "p \<in> set (doc_keys (snd d))"
      by (auto simp: nearest_predecessor_def find_Some_iff)
    then obtain n where n: "off_body fmt (after_key p) (snd d) = Some n"
      using off_after_key_None [of fmt p "snd d"] by auto
    show ?thesis
      using Some n assms(2) find_predecessor_doc [OF assms(1), of "predecessors en key"]
      by (simp add: find_insert_position_def ins_pos_def nearest_predecessor_def
            predecessors_def)
  qed
qed

lemma ins_pos_None: "ins_pos fmt en (fst new) d = None \<longleftrightarrow> ins_doc fmt en new d = None"
proof (cases "nearest_predecessor en (fst new) d")
  case None
  then show ?thesis by (simp add: ins_pos_def ins_doc_def split: option.splits)
next
  case (Some p)
  then have "p \<in> set (doc_keys (snd d))"
    by (auto simp: nearest_predecessor_def find_Some_iff)
  then show ?thesis
    using Some off_after_key_None [of fmt p "snd d"] by (simp add: ins_pos_def ins_doc_def)
qed

lemma ins_splice:
  assumes "ins_pos fmt en (fst new) d = Some n"
  shows "\<exists>d'. ins_doc fmt en new d = Some d'
           \<and> take n (render fmt d) @ new_line @ entry_text fmt new @ drop n (render fmt d)
               = render fmt d'"
proof (cases "nearest_predecessor en (fst new) d")
  case (Some p)
  with assms obtain m where m: "off_body fmt (after_key p) (snd d) = Some m"
    "n = length (fst d) + m"
    by (auto simp: ins_pos_def)
  from splice_body [OF bounded_after_key m(1), of new]
  show ?thesis using Some by (simp add: ins_doc_def render_def m(2))
next
  case None
  show ?thesis
  proof (cases "str_find (closing_tag fmt) (fst d)")
    case (Some i)
    then have "i \<le> length (fst d)" using str_find_Some_split by blast
    moreover have "n = i" using assms None Some by (simp add: ins_pos_def)
    ultimately show ?thesis using None Some by (simp add: ins_doc_def render_def)
  next
    case nf: None
    with assms None obtain m where m: "off_body fmt (at_closing fmt) (snd d) = Some m"
      "n = length (fst d) + m"
      by (auto simp: ins_pos_def)
    from splice_body [OF bounded_at_closing m(1), of new]
    show ?thesis using None nf m(1) by (simp add: ins_doc_def render_def m(2))
  qed
qed

lemma wf_ins_doc:
  assumes "wf_doc fmt d" and "wf_entry fmt new" and "ins_doc fmt en new d = Some d'"
  shows "wf_doc fmt d'"
proof -
  from assms(1) have wf: "plain fmt (fst d)" "wf_body fmt (snd d)" by (simp_all add: wf_doc_def)
  note b = wf_ins_body [OF assms(2) wf(2)]
  show ?thesis
  proof (cases "nearest_predecessor en (fst new) d")
    case (Some p)
    then show ?thesis using assms(3) wf(1) b [of "after_key p"]
      by (auto simp: ins_doc_def wf_doc_def)
  next
    case None
    show ?thesis
    proof (cases "str_find (closing_tag fmt) (fst d)")
      case (Some i)
      then show ?thesis
        using None assms(2,3) wf plain_take_new_line [OF wf(1), of i] plain_drop [OF wf(1), of i]
        by (auto simp: ins_doc_def wf_doc_def wf_body_Cons)
    next
      case nf: None
      then show ?thesis using None assms(3) wf(1) b [of "at_closing fmt"]
        by (auto simp: ins_doc_def wf_doc_def split: option.splits)
    qed
  qed
qed

lemma keys_ins_doc:
  assumes "ins_doc fmt en new d = Some d'"
  shows "set (doc_keys (snd d')) = insert (fst new) (set (doc_keys (snd d)))"
proof (cases "nearest_predecessor en (fst new) d")
  case (Some p)
  then have "p \<in> set (doc_keys (snd d))"
    by (auto simp: nearest_predecessor_def find_Some_iff)
  then obtain n where n: "off_body fmt (after_key p) (snd d) = Some n"
    using off_after_key_None [of fmt p "snd d"] by auto
  have d': "d' = (fst d, ins_body (after_key p) new (snd d))"
    using Some assms by (simp add: ins_doc_def)
  show ?thesis
    unfolding d' using keys_ins_body [OF n, of new] by simp
next
  case None
  show ?thesis
  proof (cases "str_find (closing_tag fmt) (fst d)")
    case (Some i)
    have d': "d' = (take i (fst d) @ new_line, (new, drop i (fst d)) # snd d)"
      using None Some assms by (simp add: ins_doc_def)
    show ?thesis unfolding d' by (simp add: doc_keys_def)
  next
    case nf: None
    show ?thesis
    proof (cases "off_body fmt (at_closing fmt) (snd d)")
      case None
      with \<open>nearest_predecessor en (fst new) d = None\<close> nf assms show ?thesis
        by (simp add: ins_doc_def)
    next
      case (Some n)
      have d': "d' = (fst d, ins_body (at_closing fmt) new (snd d))"
        using \<open>nearest_predecessor en (fst new) d = None\<close> nf Some assms
        by (simp add: ins_doc_def)
      show ?thesis
        unfolding d' using keys_ins_body [OF Some, of new] by simp
    qed
  qed
qed

lemma add_missing_refine:
  assumes "good_hash H" and "set ks \<subseteq> set en" and "set ks \<subseteq> fst ` set se"
    and "\<forall>k \<in> set ks. good_key k"
  shows "wf_doc fmt d \<Longrightarrow>
    wf_doc fmt (fst (add_missing_doc H fmt se en ks (d, n))) \<and>
    add_missing_keys H fmt se en ks (render fmt d, set (doc_keys (snd d)), n)
      = Inr (render fmt (fst (add_missing_doc H fmt se en ks (d, n))),
             set (doc_keys (snd (fst (add_missing_doc H fmt se en ks (d, n))))),
             snd (add_missing_doc H fmt se en ks (d, n)))"
  using assms(2-4)
proof (induction ks arbitrary: d n)
  case Nil
  then show ?case by simp
next
  case (Cons k ks)
  from Cons.prems have k: "k \<in> set en" "k \<in> fst ` set se" "good_key k"
    and ks: "set ks \<subseteq> set en" "set ks \<subseteq> fst ` set se" "\<forall>k \<in> set ks. good_key k"
    by simp_all
  from k(2) have "map_of se k \<noteq> None" by (simp add: map_of_eq_None_iff)
  then obtain sd where sd: "map_of se k = Some sd" by blast
  let ?new = "new_entry H fmt k sd"
  note wfn = wf_new_entry [OF k(3) assms(1), of fmt sd]
  note pos = find_insert_position_doc [OF Cons.prems(1) k(1)]
  show ?case
  proof (cases "ins_doc fmt en ?new d")
    case None
    then have "ins_pos fmt en k d = None" using ins_pos_None [of fmt en ?new d] by simp
    then show ?thesis
      using None sd pos Cons.IH [OF Cons.prems(1) ks, of n] by simp
  next
    case (Some d')
    then obtain m where m: "ins_pos fmt en k d = Some m"
      using ins_pos_None [of fmt en ?new d] by auto
    from ins_splice [of fmt en ?new d m] m Some
    have sp: "take m (render fmt d) @ new_line @ entry_text fmt ?new @ drop m (render fmt d)
                = render fmt d'" by simp
    have wf': "wf_doc fmt d'" by (rule wf_ins_doc [OF Cons.prems(1) wfn Some])
    have keys: "set (doc_keys (snd d')) = insert k (set (doc_keys (snd d)))"
      using keys_ins_doc [OF Some] by simp
    show ?thesis
      using Some sd pos m sp keys Cons.IH [OF wf' ks, of "n + 1"]
      by (simp add: new_entry_text_eq)
  qed
qed

section \<open>The sync of a target on a document\<close>

lemma map_entries_id: "map_entries (\<lambda>e. e) es = es"
  by (induction es) (auto simp: map_entries_def)

lemma map_entries_comp: "map_entries f (map_entries g es) = map_entries (\<lambda>e. f (g e)) es"
  by (induction es) (auto simp: map_entries_def)

lemma update_target_step_doc:
  assumes "wf_doc (Some Elements) d" and "CHR 0x22 \<notin> set key"
  shows "update_target_step H le missing stale (render (Some Elements) d) (key, sd)
           = render (Some Elements)
               (fst d, map_entries (\<lambda>e. refresh_step H le missing stale e (key, sd)) (snd d))"
proof (cases "map_of le key")
  case None
  then show ?thesis
    by (simp add: update_target_step_def refresh_step_def map_entries_id render_def)
next
  case (Some ld)
  show ?thesis
  proof (cases "key \<notin> set missing \<and> should_add_hash stale key ld")
    case True
    then show ?thesis
      using Some sub_render [OF assms(2,1), of "H (e_value sd)"]
      by (simp add: update_target_step_def refresh_step_def)
  next
    case False
    then show ?thesis
      using Some
      by (auto simp: update_target_step_def refresh_step_def map_entries_id render_def)
  qed
qed

lemma wf_refresh_step:
  assumes "good_hash H" and "wf_entry (Some Elements) e"
  shows "wf_entry (Some Elements) (refresh_step H le missing stale e kd)"
proof -
  obtain key sd where kd: "kd = (key, sd)" by (cases kd)
  have "wf_entry (Some Elements) (rehash key (H (e_value sd)) e)"
    using assms by (intro wf_rehash) (simp_all add: good_hash_def)
  then show ?thesis using assms(2)
    by (simp add: kd refresh_step_def split: option.splits)
qed

lemma update_fold_doc:
  assumes "good_hash H"
  shows "\<forall>k \<in> fst ` set se. CHR 0x22 \<notin> set k \<Longrightarrow> wf_doc (Some Elements) d \<Longrightarrow>
    foldl (update_target_step H le missing stale) (render (Some Elements) d) se
      = render (Some Elements)
          (fst d, map_entries (\<lambda>e. foldl (refresh_step H le missing stale) e se) (snd d))"
proof (induction se arbitrary: d)
  case Nil
  then show ?case by (simp add: map_entries_id render_def)
next
  case (Cons kd se)
  obtain key sd where kd: "kd = (key, sd)" by (cases kd)
  let ?d = "(fst d, map_entries (\<lambda>e. refresh_step H le missing stale e (key, sd)) (snd d))"
  from Cons.prems(1) have q: "CHR 0x22 \<notin> set key" and rest: "\<forall>k \<in> fst ` set se. CHR 0x22 \<notin> set k"
    by (simp_all add: kd)
  have wf: "wf_doc (Some Elements) ?d"
    using Cons.prems(2) wf_refresh_step [OF assms]
    by (simp add: wf_doc_def wf_body_map_entries)
  have "foldl (update_target_step H le missing stale) (render (Some Elements) d) (kd # se)
          = foldl (update_target_step H le missing stale) (render (Some Elements) ?d) se"
    using update_target_step_doc [OF Cons.prems(2) q, of H le missing stale sd]
    by (simp add: kd)
  also have "\<dots> = render (Some Elements)
          (fst ?d, map_entries (\<lambda>e. foldl (refresh_step H le missing stale) e se) (snd ?d))"
    by (rule Cons.IH [OF rest wf])
  finally show ?case by (simp add: kd map_entries_comp)
qed

lemma refresh_entry_fun:
  "refresh_entry H le missing stale se = (\<lambda>e. foldl (refresh_step H le missing stale) e se)"
  by (rule ext) (simp add: refresh_entry_def)

lemma wf_refresh_entry:
  assumes "good_hash H" and "wf_entry (Some Elements) e"
  shows "wf_entry (Some Elements) (refresh_entry H le missing stale se e)"
  unfolding refresh_entry_def using assms(2)
proof (induction se arbitrary: e)
  case Nil
  then show ?case by simp
next
  case (Cons kd se)
  then show ?case using wf_refresh_step [OF assms(1)] by simp
qed

lemma refresh_step_key [simp]: "fst (refresh_step H le missing stale e kd) = fst e"
  by (cases kd) (simp add: refresh_step_def split: option.splits)

lemma refresh_entry_key [simp]: "fst (refresh_entry H le missing stale se e) = fst e"
  unfolding refresh_entry_def by (induction se arbitrary: e) simp_all

lemma parse_render_keys:
  assumes "wf_doc fmt d"
  shows "ordered_keys (parse_translation_file (render fmt d) fmt) = doc_keys (snd d)"
  using entry_matches_render [OF assms]
  by (simp add: parse_ordered_keys doc_matches_def doc_keys_def read_entry_def split_def comp_def)

lemma parse_render_lookup_None:
  assumes "wf_doc fmt d"
  shows "map_of (entries (parse_translation_file (render fmt d) fmt)) k = None
           \<longleftrightarrow> k \<notin> set (doc_keys (snd d))"
  using parse_keys [of "render fmt d" fmt] parse_render_keys [OF assms]
  by (simp add: map_of_eq_None_iff)

lemma good_source_parse:
  assumes "wf_doc fmt d"
  shows "good_source (parse_translation_file (render fmt d) fmt)"
proof -
  from assms have wf: "wf_body fmt (snd d)" by (simp add: wf_doc_def)
  show ?thesis
    unfolding good_source_def
    using parse_keys [of "render fmt d" fmt] parse_distinct [of "render fmt d" fmt]
      wf_body_keys [OF wf]
    by (simp add: parse_render_keys [OF assms] good_key_def)
qed

lemma missing_keys_doc:
  assumes "wf_doc fmt d"
  shows "missing_keys (entries (parse_translation_file (render fmt d) fmt)) ks
           = filter (\<lambda>k. k \<notin> set (doc_keys (snd d))) ks"
  by (simp add: missing_keys_def parse_render_lookup_None [OF assms])

lemma sync_language_doc:
  assumes "good_hash H" and "good_source source" and "wf_doc fmt d"
  shows "sync_language H fmt source (render fmt d) =
           Inr \<lparr>lr_content = render fmt (fst (sync_doc H fmt source d)),
                lr_missing = missing_keys (entries (parse_translation_file (render fmt d) fmt))
                               (ordered_keys source),
                lr_stale = stale_keys H fmt (entries source)
                             (entries (parse_translation_file (render fmt d) fmt))
                             (ordered_keys source),
                lr_duplicates = duplicates (parse_translation_file (render fmt d) fmt),
                lr_orphaned = filter (\<lambda>k. map_of (entries source) k = None)
                                (ordered_keys (parse_translation_file (render fmt d) fmt)),
                lr_added = snd (sync_doc H fmt source d)\<rparr>"
    and "wf_doc fmt (fst (sync_doc H fmt source d))"
proof -
  let ?lang = "parse_translation_file (render fmt d) fmt"
  let ?missing = "missing_keys (entries ?lang) (ordered_keys source)"
  let ?stale = "stale_keys H fmt (entries source) (entries ?lang) (ordered_keys source)"
  let ?r = "add_missing_doc H fmt (entries source) (ordered_keys source) ?missing (d, 0)"
  from assms(2) have sub: "set (ordered_keys source) \<subseteq> fst ` set (entries source)"
    and keys: "\<forall>k \<in> set (ordered_keys source). good_key k"
    and dom: "fst ` set (entries source) = set (ordered_keys source)"
    by (simp_all add: good_source_def)
  have c: "classify_source_keys H fmt (entries source) (entries ?lang) (ordered_keys source) ([], [])
             = Inr (?missing, ?stale)"
    using classify_Inr [OF sub, of H fmt "entries ?lang" "[]" "[]"] by simp
  have m: "set ?missing \<subseteq> set (ordered_keys source)" by (auto simp: missing_keys_def)
  have m1: "set ?missing \<subseteq> fst ` set (entries source)" using m sub by blast
  have m2: "\<forall>k \<in> set ?missing. good_key k" using m keys by blast
  note a = add_missing_refine [OF assms(1) m m1 m2 assms(3), of 0]
  have wf1: "wf_doc fmt (fst ?r)" using a by simp
  have q: "\<forall>k \<in> fst ` set (entries source). CHR 0x22 \<notin> set k"
    using keys dom by (simp add: good_key_def)
  have k0: "set (ordered_keys ?lang) = set (doc_keys (snd d))"
    by (simp add: parse_render_keys [OF assms(3)])
  show "wf_doc fmt (fst (sync_doc H fmt source d))"
  proof (cases "fmt = Some Elements")
    case True
    have "wf_body (Some Elements)
            (map_entries (refresh_entry H (entries ?lang) ?missing ?stale (entries source))
               (snd (fst ?r)))"
      using wf1 True wf_refresh_entry [OF assms(1)]
      by (simp add: wf_doc_def wf_body_map_entries)
    then show ?thesis using wf1 True by (simp add: sync_doc_def Let_def wf_doc_def)
  next
    case False
    then show ?thesis using wf1 by (simp add: sync_doc_def Let_def)
  qed
  let ?upd = "foldl (update_target_step H (entries ?lang) ?missing ?stale)
                (render fmt (fst ?r)) (entries source)"
  have s1: "sync_language H fmt source (render fmt d) =
           Inr \<lparr>lr_content = (if fmt = Some Elements then ?upd else render fmt (fst ?r)),
                lr_missing = ?missing, lr_stale = ?stale,
                lr_duplicates = duplicates ?lang,
                lr_orphaned = filter (\<lambda>k. map_of (entries source) k = None) (ordered_keys ?lang),
                lr_added = snd ?r\<rparr>"
    using a c by (simp add: sync_language_def Let_def parse_raw_content k0)
  have s2: "(if fmt = Some Elements then ?upd else render fmt (fst ?r))
              = render fmt (fst (sync_doc H fmt source d))"
  proof (cases "fmt = Some Elements")
    case True
    have wf1': "wf_doc (Some Elements) (fst ?r)" using wf1 True by simp
    have "?upd = render fmt
                 (fst (fst ?r),
                  map_entries (\<lambda>e. foldl (refresh_step H (entries ?lang) ?missing ?stale) e
                                      (entries source)) (snd (fst ?r)))"
      using update_fold_doc [OF assms(1) q wf1', where le = "entries ?lang"
          and missing = ?missing and stale = ?stale]
      by (simp add: True)
    moreover have "fst (sync_doc H fmt source d)
        = (fst (fst ?r),
           map_entries (\<lambda>e. foldl (refresh_step H (entries ?lang) ?missing ?stale) e
                               (entries source)) (snd (fst ?r)))"
      using True by (simp add: sync_doc_def Let_def refresh_entry_fun)
    ultimately show ?thesis using True by simp
  next
    case False
    then show ?thesis by (simp add: sync_doc_def Let_def)
  qed
  have s3: "snd (sync_doc H fmt source d) = snd ?r"
    by (simp add: sync_doc_def Let_def)
  show "sync_language H fmt source (render fmt d) =
           Inr \<lparr>lr_content = render fmt (fst (sync_doc H fmt source d)),
                lr_missing = ?missing, lr_stale = ?stale,
                lr_duplicates = duplicates ?lang,
                lr_orphaned = filter (\<lambda>k. map_of (entries source) k = None) (ordered_keys ?lang),
                lr_added = snd (sync_doc H fmt source d)\<rparr>"
    unfolding s1 s2 s3 ..
qed

section \<open>The entries of a document after the sync\<close>

lemma parse_render_lookup:
  assumes "wf_doc fmt d"
  shows "map_of (entries (parse_translation_file (render fmt d) fmt)) = doc_lookup fmt (snd d)"
  using entry_matches_render [OF assms]
  by (simp add: parse_lookup doc_lookup_def doc_matches_def split_def comp_def)

lemma entry_of_read_key [simp]: "fst (entry_of (read_entry fmt e)) = fst e"
  by (cases e) (simp add: entry_of_def read_entry_def)

lemma doc_lookup_in:
  assumes "doc_lookup fmt es k = Some ld"
  shows "\<exists>(e, t) \<in> set es. fst e = k \<and> ld = snd (entry_of (read_entry fmt e))"
proof -
  from assms have "(k, ld) \<in> set (rev (map (\<lambda>(e, t). entry_of (read_entry fmt e)) es))"
    unfolding doc_lookup_def by (rule map_of_SomeD)
  then obtain e t where "(e, t) \<in> set es" "(k, ld) = entry_of (read_entry fmt e)"
    by auto
  then show ?thesis
    by (metis (mono_tags, lifting) case_prodI entry_of_read_key fst_conv snd_conv)
qed

lemma map_of_rev_filter:
  "map_of (rev xs) k = map_of (rev (filter (\<lambda>x. fst x = k) xs)) k"
proof (induction xs)
  case Nil
  then show ?case by simp
next
  case (Cons x xs)
  then show ?case by (cases x) (auto simp: map_add_def split: option.splits)
qed

lemma doc_lookup_filter:
  "doc_lookup fmt es k = doc_lookup fmt (filter (\<lambda>(e, t). fst e = k) es) k"
proof -
  have "filter (\<lambda>x. fst x = k) (map (\<lambda>(e, t). entry_of (read_entry fmt e)) es)
          = map (\<lambda>(e, t). entry_of (read_entry fmt e)) (filter (\<lambda>(e, t). fst e = k) es)"
    by (induction es) auto
  then show ?thesis
    unfolding doc_lookup_def
    using map_of_rev_filter [of "map (\<lambda>(e, t). entry_of (read_entry fmt e)) es" k]
      map_of_rev_filter [of "map (\<lambda>(e, t). entry_of (read_entry fmt e))
                              (filter (\<lambda>(e, t). fst e = k) es)" k]
    by (simp add: filter_map comp_def split_def)
qed

lemma doc_lookup_entries:
  assumes "map fst (filter (\<lambda>(e, t). fst e = k) es') = map fst (filter (\<lambda>(e, t). fst e = k) es)"
  shows "doc_lookup fmt es' k = doc_lookup fmt es k"
proof -
  have "\<And>xs. map (\<lambda>(e, t). entry_of (read_entry fmt e)) xs
           = map (\<lambda>e. entry_of (read_entry fmt e)) (map fst xs)"
    by (simp add: split_def)
  then have "doc_lookup fmt (filter (\<lambda>(e, t). fst e = k) es') k
           = doc_lookup fmt (filter (\<lambda>(e, t). fst e = k) es) k"
    unfolding doc_lookup_def using assms by metis
  then show ?thesis
    using doc_lookup_filter [of fmt es k] doc_lookup_filter [of fmt es' k] by simp
qed

lemma doc_lookup_None: "doc_lookup fmt es k = None \<longleftrightarrow> k \<notin> set (doc_keys es)"
  by (force simp: doc_lookup_def map_of_eq_None_iff doc_keys_def image_iff split_def)

lemma ins_body_split:
  "off_body fmt P es = Some n \<Longrightarrow>
   \<exists>xs ys. map fst es = xs @ ys \<and> map fst (ins_body P new es) = xs @ new # ys"
proof (induction es arbitrary: n)
  case Nil
  then show ?case by simp
next
  case (Cons p es)
  obtain e t where p: "p = (e, t)" by (cases p)
  show ?case
  proof (cases "P e t")
    case (Some i)
    have "map fst (p # es) = [e] @ map fst es
        \<and> map fst (ins_body P new (p # es)) = [e] @ new # map fst es"
      using Some by (simp add: p)
    then show ?thesis by blast
  next
    case None
    then obtain n' where "off_body fmt P es = Some n'" using Cons.prems by (auto simp: p)
    from Cons.IH [OF this] obtain xs ys
      where "map fst es = xs @ ys" "map fst (ins_body P new es) = xs @ new # ys" by blast
    then have "map fst (p # es) = (e # xs) @ ys
        \<and> map fst (ins_body P new (p # es)) = (e # xs) @ new # ys"
      using None by (simp add: p)
    then show ?thesis by blast
  qed
qed

lemma ins_doc_split:
  assumes "ins_doc fmt en new d = Some d'"
  shows "\<exists>xs ys. map fst (snd d) = xs @ ys \<and> map fst (snd d') = xs @ new # ys"
proof (cases "nearest_predecessor en (fst new) d")
  case (Some p)
  then have "p \<in> set (doc_keys (snd d))"
    by (auto simp: nearest_predecessor_def find_Some_iff)
  then obtain n where n: "off_body fmt (after_key p) (snd d) = Some n"
    using off_after_key_None [of fmt p "snd d"] by auto
  have d': "d' = (fst d, ins_body (after_key p) new (snd d))"
    using Some assms by (simp add: ins_doc_def)
  show ?thesis unfolding d' using ins_body_split [OF n, of new] by simp
next
  case None
  show ?thesis
  proof (cases "str_find (closing_tag fmt) (fst d)")
    case (Some i)
    have d': "d' = (take i (fst d) @ new_line, (new, drop i (fst d)) # snd d)"
      using None Some assms by (simp add: ins_doc_def)
    have "map fst (snd d) = [] @ map fst (snd d) \<and> map fst (snd d') = [] @ new # map fst (snd d)"
      by (simp add: d')
    then show ?thesis by blast
  next
    case nf: None
    show ?thesis
    proof (cases "off_body fmt (at_closing fmt) (snd d)")
      case None
      with \<open>nearest_predecessor en (fst new) d = None\<close> nf assms show ?thesis
        by (simp add: ins_doc_def)
    next
      case (Some n)
      have d': "d' = (fst d, ins_body (at_closing fmt) new (snd d))"
        using \<open>nearest_predecessor en (fst new) d = None\<close> nf Some assms
        by (simp add: ins_doc_def)
      show ?thesis unfolding d' using ins_body_split [OF Some, of new] by simp
    qed
  qed
qed

lemma add_missing_entries:
  "e \<in> set (map fst (snd (fst (add_missing_doc H fmt se en ks (d, n))))) \<Longrightarrow>
   e \<in> set (map fst (snd d))
   \<or> (\<exists>k \<in> set ks. \<exists>sd. map_of se k = Some sd \<and> e = new_entry H fmt k sd)"
proof (induction ks arbitrary: d n)
  case Nil
  then show ?case by simp
next
  case (Cons k ks)
  show ?case
  proof (cases "map_of se k")
    case None
    then show ?thesis using Cons.prems by simp
  next
    case (Some sd)
    show ?thesis
    proof (cases "ins_doc fmt en (new_entry H fmt k sd) d")
      case None
      then have "e \<in> set (map fst (snd (fst (add_missing_doc H fmt se en ks (d, n)))))"
        using Cons.prems Some by simp
      from Cons.IH [OF this] show ?thesis by auto
    next
      case d': (Some d')
      then have "e \<in> set (map fst (snd (fst (add_missing_doc H fmt se en ks (d', n + 1)))))"
        using Cons.prems Some by simp
      from Cons.IH [OF this]
      have "e \<in> set (map fst (snd d'))
            \<or> (\<exists>k \<in> set ks. \<exists>sd. map_of se k = Some sd \<and> e = new_entry H fmt k sd)" .
      moreover from ins_doc_split [OF d'] obtain xs ys
        where "map fst (snd d) = xs @ ys" "map fst (snd d') = xs @ new_entry H fmt k sd # ys"
        by blast
      then have "set (map fst (snd d')) = insert (new_entry H fmt k sd) (set (map fst (snd d)))"
        by (metis Un_insert_right list.simps(15) set_append)
      ultimately show ?thesis using Some by auto
    qed
  qed
qed

lemma add_missing_other:
  "k \<notin> set ks \<Longrightarrow>
   filter (\<lambda>e. fst e = k) (map fst (snd (fst (add_missing_doc H fmt se en ks (d, n)))))
     = filter (\<lambda>e. fst e = k) (map fst (snd d))"
proof (induction ks arbitrary: d n)
  case Nil
  then show ?case by simp
next
  case (Cons k' ks)
  then have ne: "k' \<noteq> k" and nk: "k \<notin> set ks" by auto
  show ?case
  proof (cases "map_of se k'")
    case None
    then show ?thesis by simp
  next
    case (Some sd)
    show ?thesis
    proof (cases "ins_doc fmt en (new_entry H fmt k' sd) d")
      case None
      then show ?thesis using Some Cons.IH [OF nk] by simp
    next
      case d': (Some d')
      from ins_doc_split [OF d'] obtain xs ys
        where "map fst (snd d) = xs @ ys" "map fst (snd d') = xs @ new_entry H fmt k' sd # ys"
        by blast
      then have "filter (\<lambda>e. fst e = k) (map fst (snd d'))
               = filter (\<lambda>e. fst e = k) (map fst (snd d))"
        using ne by simp
      then show ?thesis using Some d' Cons.IH [OF nk, of d' "n + 1"] by simp
    qed
  qed
qed

lemma refresh_step_other: "key \<noteq> fst e \<Longrightarrow> refresh_step H le missing stale e (key, sd) = e"
  by (cases e) (simp add: refresh_step_def rehash_apply split: option.splits)

lemma refresh_entry_absent:
  "fst e \<notin> fst ` set se \<Longrightarrow> refresh_entry H le missing stale se e = e"
  unfolding refresh_entry_def
proof (induction se)
  case Nil
  then show ?case by simp
next
  case (Cons kd se)
  obtain key sd where kd: "kd = (key, sd)" by (cases kd)
  from Cons.prems have "key \<noteq> fst e" "fst e \<notin> fst ` set se" by (auto simp: kd)
  then show ?case using Cons.IH by (simp add: kd refresh_step_other)
qed

lemma refresh_entry_char:
  "distinct (map fst se) \<Longrightarrow>
   refresh_entry H le missing stale se e
     = (case map_of se (fst e) of
          None \<Rightarrow> e
        | Some sd \<Rightarrow> refresh_step H le missing stale e (fst e, sd))"
proof (induction se)
  case Nil
  then show ?case by (simp add: refresh_entry_def)
next
  case (Cons kd se)
  obtain key sd where kd: "kd = (key, sd)" by (cases kd)
  from Cons.prems have dist: "distinct (map fst se)" and nk: "key \<notin> fst ` set se"
    by (auto simp: kd)
  have unfold: "\<And>x. refresh_entry H le missing stale (x # se) e
                  = refresh_entry H le missing stale se (refresh_step H le missing stale e x)"
    by (simp add: refresh_entry_def)
  show ?case
  proof (cases "key = fst e")
    case True
    then have "fst (refresh_step H le missing stale e kd) \<notin> fst ` set se" using nk by simp
    from refresh_entry_absent [OF this, of H le missing stale] show ?thesis
      using True by (simp add: unfold kd)
  next
    case False
    then show ?thesis
      using Cons.IH [OF dist] by (simp add: unfold kd refresh_step_other)
  qed
qed

section \<open>Properties of the insertion of missing keys\<close>

lemma good_hash_length_hash: "good_hash length_hash"
proof -
  have m: "''0123456789abcdef'' ! (n mod 16) \<in> set ''0123456789abcdef''" for n :: nat
    by (rule nth_mem) simp
  have c: "\<forall>c \<in> set ''0123456789abcdef''. c \<noteq> CHR 0x22 \<and> c \<noteq> CHR ''<'' \<and> c \<noteq> CHR ''>''"
    by simp
  have "''0123456789abcdef'' ! (n mod 16) \<noteq> CHR 0x22
      \<and> ''0123456789abcdef'' ! (n mod 16) \<noteq> CHR ''<''
      \<and> ''0123456789abcdef'' ! (n mod 16) \<noteq> CHR ''>''" for n :: nat
    using m [of n] c by blast
  then have "CHR 0x22 \<noteq> ''0123456789abcdef'' ! (length s mod 16)
      \<and> CHR ''<'' \<noteq> ''0123456789abcdef'' ! (length s mod 16)
      \<and> CHR ''>'' \<noteq> ''0123456789abcdef'' ! (length s mod 16)" for s :: string
    by metis
  then show ?thesis
    unfolding good_hash_def length_hash_def by simp
qed







section \<open>Properties of the hash update\<close>

lemma map_entries_mem:
  "(e2, t) \<in> set (map_entries G es) \<longleftrightarrow> (\<exists>e1. (e1, t) \<in> set es \<and> e2 = G e1)"
  by (induction es) (auto simp: map_entries_def)

lemma filter_key_fst:
  "map fst (filter (\<lambda>(e, t). fst e = k) es) = filter (\<lambda>e. fst e = k) (map fst es)"
  by (induction es) auto

lemma filter_key_map_entries:
  assumes "\<And>e. fst (G e) = fst e" and "\<And>e. fst e = k \<Longrightarrow> G e = e"
  shows "map fst (filter (\<lambda>(e, t). fst e = k) (map_entries G es))
           = filter (\<lambda>e. fst e = k) (map fst es)"
  using assms by (induction es) (auto simp: map_entries_def)

lemma stale_keys_mem:
  "k \<in> set (stale_keys H fmt se le ks) \<longleftrightarrow>
     k \<in> set ks \<and> (\<exists>sd ld. map_of se k = Some sd \<and> map_of le k = Some ld
                      \<and> fmt = Some Elements \<and> sync_is_stale H sd ld)"
  by (auto simp: stale_keys_def split: option.splits)

lemma entry_hash_of_new_entry:
  assumes "good_hash H"
  shows "e_hash (snd (entry_of (read_entry (Some Elements) (new_entry H (Some Elements) k sd))))
           = Some (H (e_value sd))"
proof -
  have "CHR 0x22 \<notin> set (H (e_value sd))" using assms by (simp add: good_hash_def)
  from entry_hash_of_start [OF this, of "'' ''"] show ?thesis
    by (simp add: new_entry_def read_entry_def entry_of_def)
qed

lemma entry_hash_of_rehash:
  assumes "good_hash H" and "fst e = k"
  shows "e_hash (snd (entry_of (read_entry (Some Elements) (rehash k (H v) e)))) = Some (H v)"
proof -
  obtain k' v' a where e: "e = (k', v', a)" by (cases e)
  have "CHR 0x22 \<notin> set (H v)" using assms(1) by (simp add: good_hash_def)
  from entry_hash_of_hash_attrs [OF this, of a] show ?thesis
    using assms(2) by (simp add: e rehash_apply read_entry_def entry_of_def)
qed

lemma sync_doc_lookup:
  assumes "good_hash H" and "good_source source" and "wf_doc (Some Elements) d"
    and "map_of (entries source) k = Some sd"
    and "doc_lookup (Some Elements) (snd (fst (sync_doc H (Some Elements) source d))) k = Some ld'"
  shows "if k \<in> set (stale_keys H (Some Elements) (entries source)
                       (entries (parse_translation_file (render (Some Elements) d) (Some Elements)))
                       (ordered_keys source))
            \<and> (\<exists>ld. doc_lookup (Some Elements) (snd d) k = Some ld \<and> \<not> has_no_hash (e_hash ld))
         then doc_lookup (Some Elements) (snd d) k = Some ld'
              \<and> \<not> prefix untranslatedPrefix (e_value ld')
              \<and> e_hash ld' \<noteq> Some (H (e_value sd))
         else e_hash ld' = Some (H (e_value sd))"
proof -
  let ?F = "Some Elements"
  let ?le = "entries (parse_translation_file (render ?F d) ?F)"
  let ?missing = "missing_keys ?le (ordered_keys source)"
  let ?stale = "stale_keys H ?F (entries source) ?le (ordered_keys source)"
  let ?d1 = "fst (add_missing_doc H ?F (entries source) (ordered_keys source) ?missing (d, 0))"
  let ?G = "refresh_entry H ?le ?missing ?stale (entries source)"
  have le: "map_of ?le = doc_lookup ?F (snd d)" by (rule parse_render_lookup [OF assms(3)])
  from assms(2) have dist: "distinct (map fst (entries source))"
    and dom: "set (ordered_keys source) = fst ` set (entries source)"
    by (simp_all add: good_source_def)
  have d2: "snd (fst (sync_doc H ?F source d)) = map_entries ?G (snd ?d1)"
    by (simp add: sync_doc_def Let_def)
  from doc_lookup_in [OF assms(5)] obtain e2 t
    where e2: "(e2, t) \<in> set (map_entries ?G (snd ?d1))" "fst e2 = k"
      "ld' = snd (entry_of (read_entry ?F e2))"
    unfolding d2 by blast
  from e2(1) obtain e1 where e1: "(e1, t) \<in> set (snd ?d1)" "e2 = ?G e1"
    using map_entries_mem by blast
  have k1: "fst e1 = k" using e1(2) e2(2) by simp
  have G: "\<And>e. fst e = k \<Longrightarrow> ?G e = refresh_step H ?le ?missing ?stale e (k, sd)"
    using refresh_entry_char [OF dist, of H ?le ?missing ?stale] assms(4) by simp
  have ks: "k \<in> set (ordered_keys source)"
    using assms(4) dom by (metis map_of_eq_None_iff option.distinct(1))
  show ?thesis
  proof (cases "doc_lookup ?F (snd d) k")
    case None
    then have nk: "k \<notin> set (doc_keys (snd d))" by (simp add: doc_lookup_None)
    have "e2 = e1" using G [OF k1] e1(2) None by (simp add: refresh_step_def le)
    moreover have "e1 \<in> set (map fst (snd ?d1))" using e1(1) by force
    from add_missing_entries [OF this]
    have "e1 \<in> set (map fst (snd d))
          \<or> (\<exists>k' \<in> set ?missing. \<exists>sd'. map_of (entries source) k' = Some sd'
                \<and> e1 = new_entry H ?F k' sd')" .
    moreover have "e1 \<notin> set (map fst (snd d))"
      using nk k1 by (force simp: doc_keys_def split_def)
    ultimately obtain k' sd' where "map_of (entries source) k' = Some sd'"
      "e2 = new_entry H ?F k' sd'" by blast
    then have "e2 = new_entry H ?F k sd" using e2(2) assms(4) by simp
    then have "e_hash ld' = Some (H (e_value sd))"
      using entry_hash_of_new_entry [OF assms(1), of k sd] e2(3) by simp
    then show ?thesis using None by simp
  next
    case (Some ld0)
    then have "k \<in> set (doc_keys (snd d))"
      using doc_lookup_None [of ?F "snd d" k] by simp
    then have nm: "k \<notin> set ?missing"
      using Some by (simp add: missing_keys_def le)
    have st: "k \<in> set ?stale \<longleftrightarrow> sync_is_stale H sd ld0"
      using ks assms(4) Some by (simp add: stale_keys_mem le)
    show ?thesis
    proof (cases "should_add_hash ?stale k ld0")
      case True
      have "e2 = rehash k (H (e_value sd)) e1"
        using G [OF k1] e1(2) Some nm True by (simp add: refresh_step_def le)
      then have h: "e_hash ld' = Some (H (e_value sd))"
        using entry_hash_of_rehash [OF assms(1) k1, of "e_value sd"] e2(3) by simp
      have "\<not> (k \<in> set ?stale \<and> \<not> has_no_hash (e_hash ld0))"
        using True by (auto simp: should_add_hash_def)
      then show ?thesis using h Some by simp
    next
      case False
      then have ins: "k \<in> set ?stale" and nh: "\<not> (has_no_hash (e_hash ld0)
          \<and> \<not> prefix untranslatedPrefix (e_value ld0))"
        by (simp_all add: should_add_hash_def)
      from ins st have s: "e_hash ld0 \<noteq> Some (H (e_value sd))"
        "\<not> prefix untranslatedPrefix (e_value ld0)"
        by (simp_all add: sync_is_stale_def)
      with nh have hh: "\<not> has_no_hash (e_hash ld0)" by simp
      have id: "\<And>e. fst e = k \<Longrightarrow> ?G e = e"
        using G Some False by (simp add: refresh_step_def le)
      have "map fst (filter (\<lambda>(e, t). fst e = k) (map_entries ?G (snd ?d1)))
              = filter (\<lambda>e. fst e = k) (map fst (snd ?d1))"
        by (rule filter_key_map_entries) (simp_all add: id)
      also have "\<dots> = filter (\<lambda>e. fst e = k) (map fst (snd d))"
        by (rule add_missing_other [OF nm])
      also have "\<dots> = map fst (filter (\<lambda>(e, t). fst e = k) (snd d))"
        by (simp add: filter_key_fst)
      finally have "doc_lookup ?F (map_entries ?G (snd ?d1)) k = doc_lookup ?F (snd d) k"
        by (rule doc_lookup_entries)
      then have "ld' = ld0" using assms(5) Some by (simp add: d2)
      then show ?thesis using ins hh s Some by auto
    qed
  qed
qed

text \<open>
  C2 (hash contract).  The source entry \<^verbatim>\<open>a\<close> has the value \<^verbatim>\<open>Hello!\<close>; the target entry
  \<^verbatim>\<open>a\<close> has the value \<^verbatim>\<open>Bonjour\<close>, which does not carry the untranslated prefix, and the
  hash of an older source text.  After the sync the target entry still has the old hash,
  which is not the fingerprint of the source value.
\<close>

theorem hash_contract_counterexample:
  "map_of (entries (parse_translation_file stale_source (Some Elements))) ''a''
     = Some \<lparr>e_value = ''Hello!'', e_hash = Some ''00000006''\<rparr>
   \<and> length_hash ''Hello!'' = ''00000006''
   \<and> (case sync_language length_hash (Some Elements)
              (parse_translation_file stale_source (Some Elements)) stale_target of
         Inl e \<Rightarrow> None
       | Inr r \<Rightarrow> map_of (entries (parse_translation_file (lr_content r) (Some Elements))) ''a'')
       = Some \<lparr>e_value = ''Bonjour'', e_hash = Some ''00000005''\<rparr>
   \<and> \<not> prefix untranslatedPrefix ''Bonjour''"
  by code_simp

text \<open>
  C2, amended.  After the sync of an elements-format target made of well-formed entries,
  every source key that the target file then has carries the fingerprint of the source
  value as its hash, with the sole exception of the keys that this run put on the stale
  list and whose entry had a hash that is not empty: their entry is as before the run
  (the hash is not overwritten), its value does not carry the untranslated prefix and
  its hash differs from the fingerprint.
\<close>

theorem hash_contract:
  assumes "good_hash get_hash" and "good_source source" and "wf_doc (Some Elements) d"
  shows "\<exists>r. sync_language get_hash (Some Elements) source (render (Some Elements) d) = Inr r
           \<and> (\<forall>k sd ld'.
                 map_of (entries source) k = Some sd
                 \<and> map_of (entries (parse_translation_file (lr_content r) (Some Elements))) k
                     = Some ld'
                 \<longrightarrow> (if k \<in> set (lr_stale r)
                          \<and> (\<exists>ld. map_of (entries (parse_translation_file
                                       (render (Some Elements) d) (Some Elements))) k = Some ld
                                  \<and> \<not> has_no_hash (e_hash ld))
                       then map_of (entries (parse_translation_file
                                      (render (Some Elements) d) (Some Elements))) k = Some ld'
                            \<and> \<not> prefix untranslatedPrefix (e_value ld')
                            \<and> e_hash ld' \<noteq> Some (get_hash (e_value sd))
                       else e_hash ld' = Some (get_hash (e_value sd))))"
proof -
  let ?F = "Some Elements"
  let ?d2 = "fst (sync_doc get_hash ?F source d)"
  note sl = sync_language_doc [OF assms]
  have l0: "map_of (entries (parse_translation_file (render ?F d) ?F)) = doc_lookup ?F (snd d)"
    by (rule parse_render_lookup [OF assms(3)])
  have l2: "map_of (entries (parse_translation_file (render ?F ?d2) ?F)) = doc_lookup ?F (snd ?d2)"
    by (rule parse_render_lookup [OF sl(2)])
  let ?stale = "stale_keys get_hash ?F (entries source)
                  (entries (parse_translation_file (render ?F d) ?F)) (ordered_keys source)"
  have key: "if k \<in> set ?stale
                \<and> (\<exists>ld. map_of (entries (parse_translation_file (render ?F d) ?F)) k = Some ld
                        \<and> \<not> has_no_hash (e_hash ld))
             then map_of (entries (parse_translation_file (render ?F d) ?F)) k = Some ld'
                  \<and> \<not> prefix untranslatedPrefix (e_value ld')
                  \<and> e_hash ld' \<noteq> Some (get_hash (e_value sd))
             else e_hash ld' = Some (get_hash (e_value sd))"
    if a: "map_of (entries source) k = Some sd"
      and b: "map_of (entries (parse_translation_file (render ?F ?d2) ?F)) k = Some ld'"
    for k sd ld'
  proof -
    from b have "doc_lookup ?F (snd ?d2) k = Some ld'" by (simp add: l2)
    from sync_doc_lookup [OF assms a this] show ?thesis by (simp add: l0)
  qed
  obtain r where r: "sync_language get_hash ?F source (render ?F d) = Inr r"
    "lr_content r = render ?F ?d2" "lr_stale r = ?stale"
    using sl(1) by simp
  show ?thesis
  proof (intro exI [of _ r] conjI allI impI)
    show "sync_language get_hash ?F source (render ?F d) = Inr r" by (rule r(1))
  next
    fix k sd ld'
    assume "map_of (entries source) k = Some sd
       \<and> map_of (entries (parse_translation_file (lr_content r) ?F)) k = Some ld'"
    then have "map_of (entries source) k = Some sd"
      "map_of (entries (parse_translation_file (render ?F ?d2) ?F)) k = Some ld'"
      by (simp_all add: r(2))
    from key [OF this] show "if k \<in> set (lr_stale r)
                \<and> (\<exists>ld. map_of (entries (parse_translation_file (render ?F d) ?F)) k = Some ld
                        \<and> \<not> has_no_hash (e_hash ld))
             then map_of (entries (parse_translation_file (render ?F d) ?F)) k = Some ld'
                  \<and> \<not> prefix untranslatedPrefix (e_value ld')
                  \<and> e_hash ld' \<noteq> Some (get_hash (e_value sd))
             else e_hash ld' = Some (get_hash (e_value sd))"
      unfolding r(3) .
  qed
qed

text \<open>
  The contract at a target whose entry \<^verbatim>\<open>a\<close> is stale with a hash and whose entry \<^verbatim>\<open>b\<close>
  is stale without one: \<^verbatim>\<open>a\<close> keeps its hash, \<^verbatim>\<open>b\<close> gets the fingerprint.
\<close>

theorem hash_contract_witness:
  "good_source (parse_translation_file stale_source (Some Elements))
   \<and> wf_doc (Some Elements) contract_doc
   \<and> render (Some Elements) contract_doc
       = ''<elements><e k=\"a\" v=\"Bonjour\" eh=\"00000005\" /><e k=\"b\" v=\"Oui\"/></elements>''
   \<and> (\<exists>r. sync_language length_hash (Some Elements)
              (parse_translation_file stale_source (Some Elements))
              (render (Some Elements) contract_doc) = Inr r
          \<and> lr_stale r = [''a'', ''b'']
          \<and> map_of (entries (parse_translation_file (lr_content r) (Some Elements))) ''a''
              = Some \<lparr>e_value = ''Bonjour'', e_hash = Some ''00000005''\<rparr>
          \<and> map_of (entries (parse_translation_file (lr_content r) (Some Elements))) ''b''
              = Some \<lparr>e_value = ''Oui'', e_hash = Some (length_hash ''Yes'')\<rparr>)"
proof -
  let ?F = "Some Elements"
  let ?src = "parse_translation_file stale_source ?F"
  let ?t = "render ?F contract_doc"
  have gs: "good_source ?src" by code_simp
  have wf: "wf_doc ?F contract_doc" by code_simp
  have rd: "?t = ''<elements><e k=\"a\" v=\"Bonjour\" eh=\"00000005\" /><e k=\"b\" v=\"Oui\"/></elements>''"
    by code_simp
  have sa: "map_of (entries ?src) ''a'' = Some \<lparr>e_value = ''Hello!'', e_hash = Some ''00000006''\<rparr>"
    by code_simp
  have sb: "map_of (entries ?src) ''b'' = Some \<lparr>e_value = ''Yes'', e_hash = Some ''00000003''\<rparr>"
    by code_simp
  have ta: "map_of (entries (parse_translation_file ?t ?F)) ''a''
              = Some \<lparr>e_value = ''Bonjour'', e_hash = Some ''00000005''\<rparr>"
    by code_simp
  have tb: "map_of (entries (parse_translation_file ?t ?F)) ''b''
              = Some \<lparr>e_value = ''Oui'', e_hash = None\<rparr>"
    by code_simp
  define res where "res = sync_language length_hash ?F ?src ?t"
  have st: "(case res of Inl e \<Rightarrow> None | Inr r \<Rightarrow> Some (lr_stale r)) = Some [''a'', ''b'']"
    unfolding res_def by code_simp
  have va: "(case res of Inl e \<Rightarrow> None
             | Inr r \<Rightarrow> map_option e_value
                 (map_of (entries (parse_translation_file (lr_content r) ?F)) ''a''))
              = Some ''Bonjour''"
    unfolding res_def by code_simp
  have vb: "(case res of Inl e \<Rightarrow> None
             | Inr r \<Rightarrow> map_option e_value
                 (map_of (entries (parse_translation_file (lr_content r) ?F)) ''b''))
              = Some ''Oui''"
    unfolding res_def by code_simp
  from hash_contract [OF good_hash_length_hash gs wf]
  obtain r where r: "res = Inr r"
    and c: "\<And>k sd ld'. map_of (entries ?src) k = Some sd
              \<Longrightarrow> map_of (entries (parse_translation_file (lr_content r) ?F)) k = Some ld'
              \<Longrightarrow> (if k \<in> set (lr_stale r)
                        \<and> (\<exists>ld. map_of (entries (parse_translation_file ?t ?F)) k = Some ld
                                \<and> \<not> has_no_hash (e_hash ld))
                     then map_of (entries (parse_translation_file ?t ?F)) k = Some ld'
                          \<and> \<not> prefix untranslatedPrefix (e_value ld')
                          \<and> e_hash ld' \<noteq> Some (length_hash (e_value sd))
                     else e_hash ld' = Some (length_hash (e_value sd)))"
    unfolding res_def by blast
  from st r have s: "lr_stale r = [''a'', ''b'']" by simp
  from va r obtain la where la: "map_of (entries (parse_translation_file (lr_content r) ?F)) ''a''
      = Some la" "e_value la = ''Bonjour''" by auto
  from vb r obtain lb where lb: "map_of (entries (parse_translation_file (lr_content r) ?F)) ''b''
      = Some lb" "e_value lb = ''Oui''" by auto
  from c [OF sa la(1)] have "la = \<lparr>e_value = ''Bonjour'', e_hash = Some ''00000005''\<rparr>"
    by (simp add: s ta has_no_hash_def)
  moreover from c [OF sb lb(1)] have "e_hash lb = Some (length_hash ''Yes'')"
    by (simp add: s tb has_no_hash_def)
  then have "lb = \<lparr>e_value = ''Oui'', e_hash = Some (length_hash ''Yes'')\<rparr>"
    using lb(2) by (cases lb) simp
  ultimately show ?thesis
    using gs wf rd r s la(1) lb(1) unfolding res_def by auto
qed

end
